theory Spec2Isabelle
  imports Main "HOL-Library.Sublist"
begin

section \<open>Hook engine (shared/state.py)\<close>

text \<open>
  Python objects are reached through references. A component instance lives in a store
  indexed by references, so that the module-level pointer, the caller's variable and the
  closure of a setter all alias the same object. External callables (initial-value
  producers, schedule callbacks) are identified by a number, and every invocation of one
  is recorded in order.
\<close>

type_synonym ref = nat
type_synonym callable = nat

datatype exn =
    RuntimeError string
  | IndexError
  | RecursionError
  | Raised string

datatype call = ProducerCall callable | ScheduleCall callable

text \<open>
  A value of \<^verbatim>\<open>schedule_update\<close> other than None: an object with its truth value, which
  \<^verbatim>\<open>if inst.schedule_update:\<close> tests, and the callable that a call of it runs.
\<close>

datatype callback = Callback (truthy: bool) (target: callable)

text \<open>\<^verbatim>\<open>class ComponentInstance\<close>: the three fields set by \<^verbatim>\<open>__init__\<close>.\<close>

record 'v ComponentInstance =
  state :: "'v list"
  hook_index :: nat
  schedule_update :: "callback option"

definition new_instance :: "'v ComponentInstance" where
  "new_instance = \<lparr>state = [], hook_index = 0, schedule_update = None\<rparr>"

text \<open>
  The module state: the global \<^verbatim>\<open>_current_instance\<close>, the store of instances and the
  record of invocations of external callables.
\<close>

record 'v world =
  current_instance :: "ref option"
  instances :: "ref \<Rightarrow> 'v ComponentInstance"
  calls :: "call list"

text \<open>
  What running a schedule callback does is up to the code that registered it: it may
  raise or return, and it may leave the module state changed (the callback of the client
  runtime renders the component again). The hook engine is given this behaviour as a
  function of the callable and the module state at the call.
\<close>

type_synonym 'v invoke = "callable \<Rightarrow> 'v world \<Rightarrow> (exn + unit) \<times> 'v world"

text \<open>
  The argument of \<^verbatim>\<open>use_state\<close>: a plain value, or a callable (\<^verbatim>\<open>callable(initial)\<close>)
  together with the value that invoking it returns.
\<close>

datatype 'v initial = Value 'v | Producer callable 'v

text \<open>The closure \<^verbatim>\<open>set_value\<close> captures the instance \<^verbatim>\<open>inst\<close> and the index \<^verbatim>\<open>idx\<close>.\<close>

datatype setter = Setter ref nat

definition update_instance ::
  "ref \<Rightarrow> ('v ComponentInstance \<Rightarrow> 'v ComponentInstance) \<Rightarrow> 'v world \<Rightarrow> 'v world" where
  "update_instance r f w = w\<lparr>instances := (instances w)(r := f (instances w r))\<rparr>"

text \<open>
  \<^verbatim>\<open>value = initial() if callable(initial) else initial\<close>: invoking a producer is
  recorded.
\<close>

fun eval_initial :: "'v initial \<Rightarrow> 'v world \<Rightarrow> 'v \<times> 'v world" where
  "eval_initial (Value v) w = (v, w)"
| "eval_initial (Producer f v) w = (v, w\<lparr>calls := calls w @ [ProducerCall f]\<rparr>)"

definition use_state :: "'v initial \<Rightarrow> 'v world \<Rightarrow> (exn + 'v \<times> setter) \<times> 'v world" where
  "use_state initial w =
     (case current_instance w of
        None \<Rightarrow> (Inl (RuntimeError ''use_state called outside component render''), w)
      | Some inst \<Rightarrow>
          let idx = hook_index (instances w inst);
              w1 = (if idx \<ge> length (state (instances w inst))
                    then (case eval_initial initial w of
                            (v, w') \<Rightarrow> update_instance inst (\<lambda>i. i\<lparr>state := state i @ [v]\<rparr>) w')
                    else w)
          in if idx < length (state (instances w1 inst))
             then (Inr (state (instances w1 inst) ! idx, Setter inst idx),
                   update_instance inst (\<lambda>i. i\<lparr>hook_index := hook_index i + 1\<rparr>) w1)
             else (Inl IndexError, w1))"

text \<open>
  The setter: \<^verbatim>\<open>inst.state[idx] = new\<close> raises IndexError out of range; then
  \<^verbatim>\<open>if inst.schedule_update: inst.schedule_update()\<close> runs the callback that the instance
  holds at that moment, when it holds one that is true; what the callback raises, the
  setter raises, and the module state is the one the callback leaves.
\<close>

definition set_value :: "'v invoke \<Rightarrow> setter \<Rightarrow> 'v \<Rightarrow> 'v world \<Rightarrow> (exn + unit) \<times> 'v world" where
  "set_value invoke s new w =
     (case s of Setter inst idx \<Rightarrow>
        if idx < length (state (instances w inst))
        then let w1 = update_instance inst (\<lambda>i. i\<lparr>state := (state i)[idx := new]\<rparr>) w
             in (case schedule_update (instances w1 inst) of
                   None \<Rightarrow> (Inr (), w1)
                 | Some cb \<Rightarrow>
                     if truthy cb
                     then invoke (target cb) (w1\<lparr>calls := calls w1 @ [ScheduleCall (target cb)]\<rparr>)
                     else (Inr (), w1))
        else (Inl IndexError, w))"

text \<open>
  The body of a component function, as far as the hook engine sees it: it returns a
  result, raises, calls \<^verbatim>\<open>use_state\<close> and goes on with the pair it got back, or calls a
  setter and goes on.
\<close>

datatype ('v, 'a) component =
    Return 'a
  | Raise exn
  | UseState "'v initial" "'v \<Rightarrow> setter \<Rightarrow> ('v, 'a) component"
  | SetValue setter 'v "('v, 'a) component"

primrec exec :: "'v invoke \<Rightarrow> ('v, 'a) component \<Rightarrow> 'v world \<Rightarrow> (exn + 'a) \<times> 'v world" where
  "exec invoke (Return a) w = (Inr a, w)"
| "exec invoke (Raise e) w = (Inl e, w)"
| "exec invoke (UseState initial k) w =
     (case use_state initial w of
        (Inl e, w') \<Rightarrow> (Inl e, w')
      | (Inr (v, s), w') \<Rightarrow> exec invoke (k v s) w')"
| "exec invoke (SetValue s v c) w =
     (case set_value invoke s v w of
        (Inl e, w') \<Rightarrow> (Inl e, w')
      | (Inr u, w') \<Rightarrow> exec invoke c w')"

text \<open>
  \<^verbatim>\<open>render_component\<close>: the pointer is cleared by the statement after the call, which an
  exception raised by the component skips.
\<close>

definition render_component ::
  "'v invoke \<Rightarrow> ('p \<Rightarrow> ('v, 'a) component) \<Rightarrow> 'p \<Rightarrow> ref \<Rightarrow> 'v world \<Rightarrow> (exn + 'a) \<times> 'v world" where
  "render_component invoke component_fn props instance w =
     (let w1 = update_instance instance (\<lambda>i. i\<lparr>hook_index := 0\<rparr>)
                 (w\<lparr>current_instance := Some instance\<rparr>)
      in case exec invoke (component_fn props) w1 of
           (Inl e, w2) \<Rightarrow> (Inl e, w2)
         | (Inr vnode, w2) \<Rightarrow> (Inr vnode, w2\<lparr>current_instance := None\<rparr>))"

text \<open>
  The callback that \<^verbatim>\<open>hydrate\<close> of the client runtime registers: \<^verbatim>\<open>schedule_update\<close> calls
  \<^verbatim>\<open>rerender\<close>, which renders the page component with the stored props on the root
  instance and then patches the document with the node; the render is the part that
  touches the hook engine. A setter that this render calls runs the callback again, one
  call deeper; \<open>depth\<close> is the number of nested calls that Python allows before it raises
  RecursionError.
\<close>

fun rerender ::
  "nat \<Rightarrow> ('p \<Rightarrow> ('v, 'a) component) \<Rightarrow> 'p \<Rightarrow> ref \<Rightarrow> 'v invoke" where
  "rerender 0 component props root cb w = (Inl RecursionError, w)"
| "rerender (Suc depth) component props root cb w =
     (case render_component (rerender depth component props root) component props root w of
        (Inl e, w') \<Rightarrow> (Inl e, w')
      | (Inr vnode, w') \<Rightarrow> (Inr (), w'))"

text \<open>A callback that returns at once and touches nothing.\<close>

definition inert :: "'v invoke" where
  "inert cb w = (Inr (), w)"

text \<open>The component calls \<^verbatim>\<open>use_state\<close> exactly \<open>k\<close> times, whatever the hooks return.\<close>

primrec hook_calls :: "('v, 'a) component \<Rightarrow> nat \<Rightarrow> bool" where
  "hook_calls (Return a) k = (k = 0)"
| "hook_calls (Raise e) k = False"
| "hook_calls (UseState initial f) k =
     (case k of 0 \<Rightarrow> False | Suc j \<Rightarrow> (\<forall>v s. hook_calls (f v s) j))"
| "hook_calls (SetValue s v c) k = hook_calls c k"

text \<open>The component calls no setter while it renders.\<close>

primrec no_set_value :: "('v, 'a) component \<Rightarrow> bool" where
  "no_set_value (Return a) = True"
| "no_set_value (Raise e) = True"
| "no_set_value (UseState initial f) = (\<forall>v s. no_set_value (f v s))"
| "no_set_value (SetValue s v c) = False"

text \<open>
  The call of the setter in this module state runs a callback: the slot exists and the
  instance holds a callback that is true.
\<close>

fun triggers :: "setter \<Rightarrow> 'v world \<Rightarrow> bool" where
  "triggers (Setter inst idx) w =
     (idx < length (state (instances w inst)) \<and>
      (case schedule_update (instances w inst) of None \<Rightarrow> False | Some cb \<Rightarrow> truthy cb))"


text \<open>
  What the code around the hook engine does with an instance between and around renders:
  it renders the component again, calls a setter it was given, or registers or clears the
  schedule callback (\<^verbatim>\<open>_root_instance.schedule_update = schedule_update\<close> in the client
  runtime). An exception ends the sequence.
\<close>

datatype ('v, 'p) action = Render 'p | Set setter 'v | Register "callback option"

fun is_render :: "('v, 'p) action \<Rightarrow> bool" where
  "is_render (Render p) = True"
| "is_render a = False"

fun run_actions ::
  "'v invoke \<Rightarrow> ('p \<Rightarrow> ('v, 'a) component) \<Rightarrow> ref \<Rightarrow> ('v, 'p) action list \<Rightarrow> 'v world \<Rightarrow>
   exn + 'v world" where
  "run_actions invoke component_fn instance [] w = Inr w"
| "run_actions invoke component_fn instance (Render p # acts) w =
     (case render_component invoke component_fn p instance w of
        (Inl e, w') \<Rightarrow> Inl e
      | (Inr vnode, w') \<Rightarrow> run_actions invoke component_fn instance acts w')"
| "run_actions invoke component_fn instance (Set s v # acts) w =
     (case set_value invoke s v w of
        (Inl e, w') \<Rightarrow> Inl e
      | (Inr u, w') \<Rightarrow> run_actions invoke component_fn instance acts w')"
| "run_actions invoke component_fn instance (Register cb # acts) w =
     run_actions invoke component_fn instance acts
       (update_instance instance (\<lambda>i. i\<lparr>schedule_update := cb\<rparr>) w)"

definition producer_calls :: "call list \<Rightarrow> callable list" where
  "producer_calls cs = concat (map (\<lambda>c. case c of ProducerCall f \<Rightarrow> [f] | ScheduleCall f \<Rightarrow> []) cs)"


text \<open>The hook index of the active instance never runs ahead of its slots.\<close>

definition inv_idx :: "ref \<Rightarrow> 'v world \<Rightarrow> bool" where
  "inv_idx r w \<longleftrightarrow> current_instance w = Some r \<and>
      hook_index (instances w r) \<le> length (state (instances w r))"

text \<open>
  What the slots of an instance need of the callbacks, for a component of \<open>k\<close> hooks: a
  callback that returns leaves no more than \<open>k\<close> slots where there were no more, and
  leaves \<open>k\<close> or more slots as many as they were, running no producer; and either it leaves
  no render active, as a completed render does, or it leaves the pointer, the hook index
  and the number of slots as they were.
\<close>

definition hook_safe :: "'v invoke \<Rightarrow> ref \<Rightarrow> nat \<Rightarrow> bool" where
  "hook_safe invoke inst k \<longleftrightarrow>
     (\<forall>cb w u w'. invoke cb w = (Inr u, w') \<longrightarrow>
        (length (state (instances w inst)) \<le> k \<longrightarrow> length (state (instances w' inst)) \<le> k) \<and>
        (k \<le> length (state (instances w inst)) \<longrightarrow>
           length (state (instances w' inst)) = length (state (instances w inst)) \<and>
           producer_calls (calls w') = producer_calls (calls w)) \<and>
        (current_instance w' = None \<or>
         current_instance w' = current_instance w \<and>
         hook_index (instances w' inst) = hook_index (instances w inst) \<and>
         length (state (instances w' inst)) = length (state (instances w inst))))"

subsection \<open>Example inputs\<close>

definition empty_world :: "int world" where
  "empty_world = \<lparr>current_instance = None, instances = (\<lambda>r. new_instance), calls = []\<rparr>"

definition example_form :: "unit \<Rightarrow> (int, int) component" where
  "example_form props =
     UseState (Producer 7 0) (\<lambda>count set_count.
       UseState (Value 1) (\<lambda>step set_step. Return (count + step)))"

definition example_failing :: "unit \<Rightarrow> (int, int) component" where
  "example_failing props =
     UseState (Value 0) (\<lambda>count set_count. Raise (Raised ''boom''))"




section \<open>Node model (shared/vdom.py)\<close>

text \<open>
  The values an attribute can hold: None, a boolean, a number, a string, a callable
  (an event binding) or a mapping (the style attribute).
\<close>

datatype pyval =
    PNone
  | PBool bool
  | PInt int
  | PStr string
  | PFunc callable
  | PDict "(string \<times> string) list"

text \<open>
  \<^verbatim>\<open>VNodeChild = Union["VNode", str]\<close>: a child is a text string or a \<^verbatim>\<open>VNode\<close> with its
  fields \<^verbatim>\<open>tag\<close>, \<^verbatim>\<open>props\<close> (a dict, in insertion order), \<^verbatim>\<open>children\<close>, \<^verbatim>\<open>key\<close> and
  \<^verbatim>\<open>_el\<close>, the reference to the attached host element.
\<close>

datatype vchild =
    Str string
  | VNode string "(string \<times> pyval) list" "vchild list" "string option" "ref option"

text \<open>\<^verbatim>\<open>h(tag, props, *children)\<close>: no key, no host element.\<close>

definition h :: "string \<Rightarrow> (string \<times> pyval) list \<Rightarrow> vchild list \<Rightarrow> vchild" where
  "h tag props children = VNode tag props children None None"

section \<open>String renderer (server/ssr.py)\<close>

text \<open>
  \<^verbatim>\<open>html.escape(s, quote=True)\<close> of the Python standard library: five successive
  \<^verbatim>\<open>str.replace\<close> calls, the ampersand first.
\<close>

definition replace_char :: "char \<Rightarrow> string \<Rightarrow> string \<Rightarrow> string" where
  "replace_char c r s = concat (map (\<lambda>x. if x = c then r else [x]) s)"

definition esc :: "string \<Rightarrow> string" where
  "esc s =
     replace_char (CHR 0x27) ''&#x27;''
       (replace_char (CHR 0x22) ''&quot;''
          (replace_char CHR ''>'' ''&gt;''
             (replace_char CHR ''<'' ''&lt;''
                (replace_char CHR ''&'' ''&amp;'' s))))"

text \<open>
  \<^verbatim>\<open>str(v)\<close>: a string is itself; what the builtin prints for any other value (a number,
  a callable, a mapping) is a parameter.
\<close>

definition py_str :: "(pyval \<Rightarrow> string) \<Rightarrow> pyval \<Rightarrow> string" where
  "py_str builtin v = (case v of PStr s \<Rightarrow> s | _ \<Rightarrow> builtin v)"

text \<open>\<^verbatim>\<open>sep.join(parts)\<close>.\<close>

fun join :: "string \<Rightarrow> string list \<Rightarrow> string" where
  "join sep [] = []"
| "join sep [x] = x"
| "join sep (x # y # ys) = x @ sep @ join sep (y # ys)"

text \<open>The loop over \<^verbatim>\<open>props.items()\<close> that fills \<^verbatim>\<open>attr_parts\<close>.\<close>

fun attr_parts_loop ::
  "(pyval \<Rightarrow> string) \<Rightarrow> (string \<times> pyval) list \<Rightarrow> string list \<Rightarrow> string list" where
  "attr_parts_loop builtin [] attr_parts = attr_parts"
| "attr_parts_loop builtin ((k, v) # rest) attr_parts =
     (if prefix ''on_'' k then attr_parts_loop builtin rest attr_parts
      else if v = PBool True then attr_parts_loop builtin rest (attr_parts @ [k])
      else if v = PBool False \<or> v = PNone then attr_parts_loop builtin rest attr_parts
      else attr_parts_loop builtin rest
             (attr_parts @ [k @ [CHR ''='', CHR 0x22] @ esc (py_str builtin v) @ [CHR 0x22]]))"

fun render_to_string :: "(pyval \<Rightarrow> string) \<Rightarrow> vchild \<Rightarrow> string" where
  "render_to_string builtin (Str node) = esc node"
| "render_to_string builtin (VNode tag props children key el) =
     (let attr_parts = attr_parts_loop builtin props [];
          attrs = (if attr_parts \<noteq> [] then '' '' @ join '' '' attr_parts else []);
          inner = concat (map (render_to_string builtin) children)
      in ''<'' @ tag @ attrs @ ''>'' @ inner @ ''</'' @ tag @ ''>'')"

text \<open>The vocabulary of the renderer's guarantees.\<close>

definition esc_char :: "char \<Rightarrow> string" where
  "esc_char c =
     (if c = CHR ''&'' then ''&amp;''
      else if c = CHR ''<'' then ''&lt;''
      else if c = CHR ''>'' then ''&gt;''
      else if c = CHR 0x22 then ''&quot;''
      else if c = CHR 0x27 then ''&#x27;''
      else [c])"

definition special :: "char \<Rightarrow> bool" where
  "special c \<longleftrightarrow> c \<in> {CHR ''&'', CHR ''<'', CHR ''>'', CHR 0x22, CHR 0x27}"

text \<open>Every ampersand of a string starts one of the five entities.\<close>

fun amp_ok :: "string \<Rightarrow> bool" where
  "amp_ok [] = True"
| "amp_ok (c # cs) =
     ((c = CHR ''&'' \<longrightarrow>
         prefix ''amp;'' cs \<or> prefix ''lt;'' cs \<or> prefix ''gt;'' cs \<or>
         prefix ''quot;'' cs \<or> prefix ''#x27;'' cs) \<and>
      amp_ok cs)"

text \<open>The attributes that reach the markup, and those among them that carry a value.\<close>

definition emitted :: "(string \<times> pyval) list \<Rightarrow> (string \<times> pyval) list" where
  "emitted props =
     filter (\<lambda>(k, v). \<not> prefix ''on_'' k \<and> v \<noteq> PBool False \<and> v \<noteq> PNone) props"

definition valued :: "(string \<times> pyval) list \<Rightarrow> (string \<times> pyval) list" where
  "valued props = filter (\<lambda>(k, v). v \<noteq> PBool True) (emitted props)"

definition attr_markup :: "(pyval \<Rightarrow> string) \<Rightarrow> string \<times> pyval \<Rightarrow> string" where
  "attr_markup builtin kv =
     (case kv of (k, v) \<Rightarrow>
        if v = PBool True then k
        else k @ [CHR ''='', CHR 0x22] @ concat (map esc_char (py_str builtin v)) @ [CHR 0x22])"

text \<open>The text children, the valued attributes and the elements of a whole tree.\<close>

fun texts :: "vchild \<Rightarrow> string list" where
  "texts (Str s) = [s]"
| "texts (VNode tag props children key el) = concat (map texts children)"

fun attr_values :: "vchild \<Rightarrow> (string \<times> pyval) list" where
  "attr_values (Str s) = []"
| "attr_values (VNode tag props children key el) =
     valued props @ concat (map attr_values children)"

fun elements :: "vchild \<Rightarrow> nat" where
  "elements (Str s) = 0"
| "elements (VNode tag props children key el) = Suc (sum_list (map elements children))"

text \<open>No tag and no name of an emitted attribute holds one of the five characters.\<close>

fun plain_names :: "vchild \<Rightarrow> bool" where
  "plain_names (Str s) = True"
| "plain_names (VNode tag props children key el) =
     (list_all (\<lambda>c. \<not> special c) tag \<and>
      list_all (\<lambda>(k, v). list_all (\<lambda>c. \<not> special c) k) (emitted props) \<and>
      list_all plain_names children)"

subsection \<open>Vocabulary of the renderer's proofs and example tree\<close>

definition attrs_string :: "(pyval \<Rightarrow> string) \<Rightarrow> (string \<times> pyval) list \<Rightarrow> string" where
  "attrs_string builtin props =
     (if emitted props \<noteq> [] then '' '' @ join '' '' (map (attr_markup builtin) (emitted props)) else [])"

definition delimiters :: "char \<Rightarrow> vchild \<Rightarrow> nat" where
  "delimiters d n =
     (if d = CHR ''<'' \<or> d = CHR ''>'' then 2 * elements n
      else if d = CHR 0x22 then 2 * length (attr_values n) else 0)"

definition example_page :: vchild where
  "example_page =
     h ''div'' [(''title'', PStr [CHR ''a'', CHR 0x22, CHR ''>'', CHR ''b'']), (''on_click'', PFunc 1),
                (''disabled'', PBool True), (''hidden'', PBool False), (''data'', PNone),
                (''href'', PStr ''javascript:alert(1)'')]
       [Str ''<script>alert(1)</script>'', h ''p'' [] [Str ''x & y'']]"

section \<open>Client runtime (static/client_runtime.py)\<close>

text \<open>
  The host document that the runtime drives through the JavaScript interface: a store of
  host nodes, each an element (with a tag name) or a text node, and the next reference
  that \<^verbatim>\<open>createElement\<close> or \<^verbatim>\<open>createTextNode\<close> hands out. A node is a child of the
  node whose \<^verbatim>\<open>childNodes\<close> holds it. The operations are those of the DOM standard;
  \<^verbatim>\<open>textContent\<close> is the data of a text node.
\<close>

record element =
  tagName :: "string option"
  textContent :: string
  className :: pyval
  style :: "string \<rightharpoonup> string"
  attributes :: "string \<rightharpoonup> string"
  listeners :: "(string \<times> pyval) list"
  childNodes :: "ref list"

record document =
  nodes :: "ref \<Rightarrow> element"
  next_ref :: ref

datatype js_error = AttributeError | TypeError | NotFoundError

definition new_element :: "string option \<Rightarrow> string \<Rightarrow> element" where
  "new_element t s =
     \<lparr>tagName = t, textContent = s, className = PStr [], style = Map.empty,
      attributes = Map.empty, listeners = [], childNodes = []\<rparr>"

definition update_node :: "ref \<Rightarrow> (element \<Rightarrow> element) \<Rightarrow> document \<Rightarrow> document" where
  "update_node r f d = d\<lparr>nodes := (nodes d)(r := f (nodes d r))\<rparr>"

definition createElement :: "string \<Rightarrow> document \<Rightarrow> ref \<times> document" where
  "createElement t d =
     (next_ref d,
      d\<lparr>nodes := (nodes d)(next_ref d := new_element (Some t) []), next_ref := Suc (next_ref d)\<rparr>)"

definition createTextNode :: "string \<Rightarrow> document \<Rightarrow> ref \<times> document" where
  "createTextNode s d =
     (next_ref d,
      d\<lparr>nodes := (nodes d)(next_ref d := new_element None s), next_ref := Suc (next_ref d)\<rparr>)"

text \<open>\<^verbatim>\<open>node.remove()\<close>: the node leaves the children of its parent.\<close>

definition detach :: "ref \<Rightarrow> document \<Rightarrow> document" where
  "detach x d = d\<lparr>nodes := (\<lambda>r. (nodes d r)\<lparr>childNodes := removeAll x (childNodes (nodes d r))\<rparr>)\<rparr>"

text \<open>
  \<^verbatim>\<open>parent.appendChild(child)\<close>: the child leaves its present parent and becomes the last
  child. A receiver that is None has no such attribute; an argument that is None is not
  a node.
\<close>

fun appendChild :: "ref option \<Rightarrow> ref option \<Rightarrow> document \<Rightarrow> js_error + document" where
  "appendChild None child d = Inl AttributeError"
| "appendChild (Some parent) None d = Inl TypeError"
| "appendChild (Some parent) (Some child) d =
     Inr (update_node parent (\<lambda>e. e\<lparr>childNodes := childNodes e @ [child]\<rparr>) (detach child d))"

text \<open>
  \<^verbatim>\<open>parent.insertBefore(new, ref)\<close>: the reference node must be a child of the parent; a
  node inserted before itself stays where it is.
\<close>

definition insertBefore :: "ref \<Rightarrow> ref option \<Rightarrow> ref \<Rightarrow> document \<Rightarrow> js_error + document" where
  "insertBefore parent new reference d =
     (case new of
        None \<Rightarrow> Inl TypeError
      | Some n \<Rightarrow>
          if reference \<notin> set (childNodes (nodes d parent)) then Inl NotFoundError
          else if n = reference then Inr d
          else Inr (update_node parent
                 (\<lambda>e. e\<lparr>childNodes := takeWhile (\<lambda>c. c \<noteq> reference) (childNodes e) @ [n] @
                                        dropWhile (\<lambda>c. c \<noteq> reference) (childNodes e)\<rparr>)
                 (detach n d)))"

definition removeChild :: "ref \<Rightarrow> ref \<Rightarrow> document \<Rightarrow> document" where
  "removeChild parent child d =
     update_node parent (\<lambda>e. e\<lparr>childNodes := removeAll child (childNodes e)\<rparr>) d"

text \<open>\<^verbatim>\<open>parent.childNodes\<close>, which a parent that is None does not have.\<close>

fun childNodes_of :: "ref option \<Rightarrow> document \<Rightarrow> js_error + ref list" where
  "childNodes_of None d = Inl AttributeError"
| "childNodes_of (Some parent) d = Inr (childNodes (nodes d parent))"

text \<open>The attribute, class, style and listener setters, on a receiver that may be None.\<close>

fun set_className :: "ref option \<Rightarrow> pyval \<Rightarrow> document \<Rightarrow> js_error + document" where
  "set_className None v d = Inl AttributeError"
| "set_className (Some el) v d = Inr (update_node el (\<lambda>e. e\<lparr>className := v\<rparr>) d)"

fun set_style :: "ref option \<Rightarrow> string \<Rightarrow> string \<Rightarrow> document \<Rightarrow> js_error + document" where
  "set_style None k v d = Inl AttributeError"
| "set_style (Some el) k v d = Inr (update_node el (\<lambda>e. e\<lparr>style := (style e)(k \<mapsto> v)\<rparr>) d)"

fun setAttribute :: "ref option \<Rightarrow> string \<Rightarrow> string \<Rightarrow> document \<Rightarrow> js_error + document" where
  "setAttribute None k v d = Inl AttributeError"
| "setAttribute (Some el) k v d =
     Inr (update_node el (\<lambda>e. e\<lparr>attributes := (attributes e)(k \<mapsto> v)\<rparr>) d)"

fun removeAttribute :: "ref option \<Rightarrow> string \<Rightarrow> document \<Rightarrow> js_error + document" where
  "removeAttribute None k d = Inl AttributeError"
| "removeAttribute (Some el) k d =
     Inr (update_node el (\<lambda>e. e\<lparr>attributes := (attributes e)(k := None)\<rparr>) d)"

fun addEventListener :: "ref option \<Rightarrow> string \<Rightarrow> pyval \<Rightarrow> document \<Rightarrow> js_error + document" where
  "addEventListener None event proxy d = Inl AttributeError"
| "addEventListener (Some el) event proxy d =
     Inr (update_node el (\<lambda>e. e\<lparr>listeners := listeners e @ [(event, proxy)]\<rparr>) d)"

text \<open>The loops \<^verbatim>\<open>for sk, sv in v.items(): el.style[sk] = sv\<close>.\<close>

fun set_styles :: "ref option \<Rightarrow> (string \<times> string) list \<Rightarrow> document \<Rightarrow> js_error + document" where
  "set_styles el [] d = Inr d"
| "set_styles el ((sk, sv) # rest) d =
     (case set_style el sk sv d of Inl e \<Rightarrow> Inl e | Inr d' \<Rightarrow> set_styles el rest d')"

text \<open>\<^verbatim>\<open>_el\<close> of a node; a string has none.\<close>

fun el_of :: "vchild \<Rightarrow> ref option" where
  "el_of (Str s) = None"
| "el_of (VNode tag props children key el) = el"

text \<open>\<^verbatim>\<open>callable(v)\<close>, \<^verbatim>\<open>isinstance(v, dict)\<close> and the items of a mapping.\<close>

fun callable :: "pyval \<Rightarrow> bool" where
  "callable (PFunc f) = True"
| "callable v = False"

fun is_dict :: "pyval \<Rightarrow> bool" where
  "is_dict (PDict m) = True"
| "is_dict v = False"

fun items :: "pyval \<Rightarrow> (string \<times> string) list" where
  "items (PDict m) = m"
| "items v = []"

text \<open>The loop over the props of \<^verbatim>\<open>mount\<close>.\<close>

fun mount_props ::
  "(pyval \<Rightarrow> string) \<Rightarrow> ref option \<Rightarrow> (string \<times> pyval) list \<Rightarrow> document \<Rightarrow> js_error + document" where
  "mount_props builtin el [] d = Inr d"
| "mount_props builtin el ((k, v) # rest) d =
     (case (if prefix ''on_'' k \<and> callable v
            then addEventListener el (drop (length ''on_'') k) v d
            else if k = ''class'' then set_className el v d
            else if k = ''style'' \<and> is_dict v then set_styles el (items v) d
            else setAttribute el k (py_str builtin v) d) of
        Inl e \<Rightarrow> Inl e
      | Inr d' \<Rightarrow> mount_props builtin el rest d')"

text \<open>
  \<^verbatim>\<open>mount(parent, vnode)\<close>. The node objects are mutable: the result carries the node as
  the call leaves it, with \<^verbatim>\<open>_el\<close> set on it and on every node below it.
\<close>

fun mount :: "(pyval \<Rightarrow> string) \<Rightarrow> ref option \<Rightarrow> vchild \<Rightarrow> document \<Rightarrow> js_error + vchild \<times> document"
and mount_each ::
  "(pyval \<Rightarrow> string) \<Rightarrow> ref option \<Rightarrow> vchild list \<Rightarrow> document \<Rightarrow> js_error + vchild list \<times> document" where
  "mount builtin parent (Str vnode) d =
     (case createTextNode vnode d of
        (text_node, d1) \<Rightarrow>
          (case appendChild parent (Some text_node) d1 of
             Inl e \<Rightarrow> Inl e
           | Inr d2 \<Rightarrow> Inr (Str vnode, d2)))"
| "mount builtin parent (VNode tag props children key el0) d =
     (case createElement tag d of
        (el, d1) \<Rightarrow>
          (case mount_props builtin (Some el) props d1 of
             Inl e \<Rightarrow> Inl e
           | Inr d2 \<Rightarrow>
               (case mount_each builtin (Some el) children d2 of
                  Inl e \<Rightarrow> Inl e
                | Inr (children', d3) \<Rightarrow>
                    (case appendChild parent (Some el) d3 of
                       Inl e \<Rightarrow> Inl e
                     | Inr d4 \<Rightarrow> Inr (VNode tag props children' key (Some el), d4)))))"
| "mount_each builtin parent [] d = Inr ([], d)"
| "mount_each builtin parent (child # rest) d =
     (case mount builtin parent child d of
        Inl e \<Rightarrow> Inl e
      | Inr (child', d1) \<Rightarrow>
          (case mount_each builtin parent rest d1 of
             Inl e \<Rightarrow> Inl e
           | Inr (rest', d2) \<Rightarrow> Inr (child' # rest', d2)))"

text \<open>\<^verbatim>\<open>remove_node(parent, vnode, index)\<close>.\<close>

fun remove_node :: "ref option \<Rightarrow> vchild \<Rightarrow> nat \<Rightarrow> document \<Rightarrow> js_error + document" where
  "remove_node parent (Str vnode) index d =
     (case parent of
        None \<Rightarrow> Inl AttributeError
      | Some p \<Rightarrow>
          if index < length (childNodes (nodes d p))
          then Inr (removeChild p (childNodes (nodes d p) ! index) d)
          else Inr d)"
| "remove_node parent (VNode tag props children key el) index d =
     (case el of None \<Rightarrow> Inr d | Some e \<Rightarrow> Inr (detach e d))"

text \<open>\<^verbatim>\<open>move_node(parent, element, new_index)\<close>.\<close>

definition move_node :: "ref option \<Rightarrow> ref option \<Rightarrow> nat \<Rightarrow> document \<Rightarrow> js_error + document" where
  "move_node parent element new_index d =
     (case parent of
        None \<Rightarrow> Inl AttributeError
      | Some p \<Rightarrow>
          let children = childNodes (nodes d p)
          in if new_index \<ge> length children then appendChild parent element d
             else insertBefore p element (children ! new_index) d)"

text \<open>
  Python's \<^verbatim>\<open>==\<close> on attribute values: True and False equal 1 and 0, callables are
  compared by identity, mappings by their entries whatever their order.
\<close>

fun py_eq :: "pyval \<Rightarrow> pyval \<Rightarrow> bool" where
  "py_eq PNone PNone = True"
| "py_eq (PBool a) (PBool b) = (a = b)"
| "py_eq (PBool a) (PInt i) = (i = (if a then 1 else 0))"
| "py_eq (PInt i) (PBool a) = (i = (if a then 1 else 0))"
| "py_eq (PInt i) (PInt j) = (i = j)"
| "py_eq (PStr s) (PStr t) = (s = t)"
| "py_eq (PFunc f) (PFunc g) = (f = g)"
| "py_eq (PDict m) (PDict n) =
     (list_all (\<lambda>(k, v). map_of n k = Some v) m \<and> list_all (\<lambda>(k, v). map_of m k = Some v) n)"
| "py_eq v w = False"

text \<open>\<^verbatim>\<open>old_props.get(key)\<close>: None when the key is absent.\<close>

definition dict_get :: "(string \<times> pyval) list \<Rightarrow> string \<Rightarrow> pyval" where
  "dict_get props key = (case map_of props key of None \<Rightarrow> PNone | Some v \<Rightarrow> v)"

text \<open>The first loop of \<^verbatim>\<open>patch_props\<close>: the props of the old node that the new one lacks.\<close>

fun clear_styles :: "ref option \<Rightarrow> string list \<Rightarrow> document \<Rightarrow> js_error + document" where
  "clear_styles element [] d = Inr d"
| "clear_styles element (style_key # rest) d =
     (case set_style element style_key [] d of
        Inl e \<Rightarrow> Inl e
      | Inr d' \<Rightarrow> clear_styles element rest d')"

fun remove_old_props ::
  "ref option \<Rightarrow> (string \<times> pyval) list \<Rightarrow> (string \<times> pyval) list \<Rightarrow> document \<Rightarrow> js_error + document" where
  "remove_old_props element [] new_props d = Inr d"
| "remove_old_props element ((key, old_value) # rest) new_props d =
     (case (if key \<notin> fst ` set new_props
            then (if prefix ''on_'' key then Inr d
                  else if key = ''class'' then set_className element (PStr []) d
                  else if key = ''style''
                    then clear_styles element (map fst (if is_dict old_value then items old_value else [])) d
                  else removeAttribute element key d)
            else Inr d) of
        Inl e \<Rightarrow> Inl e
      | Inr d' \<Rightarrow> remove_old_props element rest new_props d')"

text \<open>The second loop: the props of the new node whose value differs from the old one.\<close>

fun update_new_props ::
  "(pyval \<Rightarrow> string) \<Rightarrow> ref option \<Rightarrow> (string \<times> pyval) list \<Rightarrow> (string \<times> pyval) list \<Rightarrow>
   document \<Rightarrow> js_error + document" where
  "update_new_props builtin element old_props [] d = Inr d"
| "update_new_props builtin element old_props ((key, v) # rest) d =
     (case (let old_value = dict_get old_props key
            in if py_eq old_value v then Inr d
               else if prefix ''on_'' key \<and> callable v
                 then addEventListener element (drop (length ''on_'') key) v d
               else if key = ''class'' then set_className element v d
               else if key = ''style'' \<and> is_dict v
                 then (let old_style = (case map_of old_props ''style'' of
                                          None \<Rightarrow> []
                                        | Some s \<Rightarrow> if is_dict s then items s else [])
                       in case clear_styles element
                                 (filter (\<lambda>style_key. style_key \<notin> fst ` set (items v))
                                    (map fst old_style)) d of
                            Inl e \<Rightarrow> Inl e
                          | Inr d' \<Rightarrow> set_styles element (items v) d')
               else setAttribute element key (py_str builtin v) d) of
        Inl e \<Rightarrow> Inl e
      | Inr d' \<Rightarrow> update_new_props builtin element old_props rest d')"

definition patch_props ::
  "(pyval \<Rightarrow> string) \<Rightarrow> ref option \<Rightarrow> (string \<times> pyval) list \<Rightarrow> (string \<times> pyval) list \<Rightarrow>
   document \<Rightarrow> js_error + document" where
  "patch_props builtin element old_props new_props d =
     (case remove_old_props element old_props new_props d of
        Inl e \<Rightarrow> Inl e
      | Inr d' \<Rightarrow> update_new_props builtin element old_props new_props d')"

text \<open>
  The key maps of \<^verbatim>\<open>patch_keyed_children\<close>: a dict from the key to the index and the
  child, filled in the order of the children; a key met again keeps its place and takes
  the later child. Only a node whose key is neither None nor empty takes part.
\<close>

fun truthy_key :: "vchild \<Rightarrow> string option" where
  "truthy_key (Str s) = None"
| "truthy_key (VNode tag props children key el) =
     (case key of None \<Rightarrow> None | Some k \<Rightarrow> if k = [] then None else Some k)"

fun dict_set :: "('k \<times> 'v) list \<Rightarrow> 'k \<Rightarrow> 'v \<Rightarrow> ('k \<times> 'v) list" where
  "dict_set [] k v = [(k, v)]"
| "dict_set ((k', v') # rest) k v =
     (if k' = k then (k, v) # rest else (k', v') # dict_set rest k v)"

fun build_keyed ::
  "vchild list \<Rightarrow> nat \<Rightarrow> (string \<times> nat \<times> vchild) list \<Rightarrow> (string \<times> nat \<times> vchild) list" where
  "build_keyed [] i keyed = keyed"
| "build_keyed (child # rest) i keyed =
     (case truthy_key child of
        None \<Rightarrow> build_keyed rest (Suc i) keyed
      | Some k \<Rightarrow> build_keyed rest (Suc i) (dict_set keyed k (i, child)))"

text \<open>The second pass: the old keyed children whose key no new child used.\<close>

fun remove_unused ::
  "ref option \<Rightarrow> (string \<times> nat \<times> vchild) list \<Rightarrow> string set \<Rightarrow> document \<Rightarrow> js_error + document" where
  "remove_unused parent [] used_keys d = Inr d"
| "remove_unused parent ((key, old_idx, old_child) # rest) used_keys d =
     (if key \<notin> used_keys
      then (case remove_node parent old_child 0 d of
              Inl e \<Rightarrow> Inl e
            | Inr d' \<Rightarrow> remove_unused parent rest used_keys d')
      else remove_unused parent rest used_keys d)"

text \<open>The second loop of \<^verbatim>\<open>patch_children\<close>: every extra old child, at the one index.\<close>

fun remove_extra :: "ref option \<Rightarrow> vchild list \<Rightarrow> nat \<Rightarrow> document \<Rightarrow> js_error + document" where
  "remove_extra parent [] new_len d = Inr d"
| "remove_extra parent (old_child # rest) new_len d =
     (case remove_node parent old_child new_len d of
        Inl e \<Rightarrow> Inl e
      | Inr d' \<Rightarrow> remove_extra parent rest new_len d')"

text \<open>\<^verbatim>\<open>has_keys\<close> of \<^verbatim>\<open>patch\<close>.\<close>

fun has_keys :: "vchild list \<Rightarrow> bool" where
  "has_keys [] = False"
| "has_keys (Str s # rest) = False"
| "has_keys (VNode tag props children key el # rest) = (key \<noteq> None)"

text \<open>The node object that a call was given, as the call leaves it.\<close>

definition after_call :: "vchild \<Rightarrow> vchild option \<Rightarrow> vchild" where
  "after_call n r = (case r of None \<Rightarrow> n | Some n' \<Rightarrow> n')"

text \<open>\<^verbatim>\<open>text_node.textContent = new_vnode\<close>.\<close>

definition set_textContent :: "ref \<Rightarrow> string \<Rightarrow> document \<Rightarrow> document" where
  "set_textContent r s d = update_node r (\<lambda>e. e\<lparr>textContent := s\<rparr>) d"

text \<open>
  \<^verbatim>\<open>patch\<close>, \<^verbatim>\<open>patch_children\<close> and \<^verbatim>\<open>patch_keyed_children\<close>, with the loops that call
  \<^verbatim>\<open>patch\<close> again: \<open>patch_common\<close> is the first loop of \<^verbatim>\<open>patch_children\<close> (the indices
  both lists have), \<open>patch_keyed_loop\<close> the first pass of \<^verbatim>\<open>patch_keyed_children\<close> and
  \<open>patch_keyed_child\<close> the body of that pass for one keyed new child. Each
  returns the new node or nodes as the call leaves them. The dict \<^verbatim>\<open>new_keyed\<close> of the
  source is filled and never read.
\<close>

function (sequential) patch ::
  "(pyval \<Rightarrow> string) \<Rightarrow> ref option \<Rightarrow> vchild option \<Rightarrow> vchild option \<Rightarrow> nat \<Rightarrow> document \<Rightarrow>
   js_error + vchild option \<times> document"
and patch_children ::
  "(pyval \<Rightarrow> string) \<Rightarrow> ref option \<Rightarrow> vchild list \<Rightarrow> vchild list \<Rightarrow> document \<Rightarrow>
   js_error + vchild list \<times> document"
and patch_common ::
  "(pyval \<Rightarrow> string) \<Rightarrow> ref option \<Rightarrow> vchild list \<Rightarrow> vchild list \<Rightarrow> nat \<Rightarrow> document \<Rightarrow>
   js_error + vchild list \<times> document"
and patch_keyed_children ::
  "(pyval \<Rightarrow> string) \<Rightarrow> ref option \<Rightarrow> vchild list \<Rightarrow> vchild list \<Rightarrow> document \<Rightarrow>
   js_error + vchild list \<times> document"
and patch_keyed_child ::
  "(pyval \<Rightarrow> string) \<Rightarrow> ref option \<Rightarrow> (string \<times> nat \<times> vchild) list \<Rightarrow> string \<Rightarrow> vchild \<Rightarrow> nat \<Rightarrow>
   document \<Rightarrow> js_error + vchild \<times> document"
and patch_keyed_loop ::
  "(pyval \<Rightarrow> string) \<Rightarrow> ref option \<Rightarrow> (string \<times> nat \<times> vchild) list \<Rightarrow> vchild list \<Rightarrow> nat \<Rightarrow>
   string set \<Rightarrow> document \<Rightarrow> js_error + vchild list \<times> string set \<times> document" where
  "patch builtin parent None (Some new_vnode) index d =
     (case mount builtin parent new_vnode d of
        Inl e \<Rightarrow> Inl e
      | Inr (n, d') \<Rightarrow> Inr (Some n, d'))"
| "patch builtin parent (Some old_vnode) None index d =
     (case remove_node parent old_vnode index d of
        Inl e \<Rightarrow> Inl e
      | Inr d' \<Rightarrow> Inr (None, d'))"
| "patch builtin parent None None index d = Inr (None, d)"
| "patch builtin parent (Some (Str old_vnode)) (Some (Str new_vnode)) index d =
     (if old_vnode \<noteq> new_vnode
      then (case childNodes_of parent d of
              Inl e \<Rightarrow> Inl e
            | Inr cs \<Rightarrow>
                if index < length cs
                then Inr (Some (Str new_vnode), set_textContent (cs ! index) new_vnode d)
                else Inr (Some (Str new_vnode), d))
      else Inr (Some (Str new_vnode), d))"
| "patch builtin parent (Some (Str old_vnode)) (Some (VNode tag props children key el)) index d =
     (case remove_node parent (Str old_vnode) index d of
        Inl e \<Rightarrow> Inl e
      | Inr d1 \<Rightarrow>
          (case mount builtin parent (VNode tag props children key el) d1 of
             Inl e \<Rightarrow> Inl e
           | Inr (n, d2) \<Rightarrow> Inr (Some n, d2)))"
| "patch builtin parent (Some (VNode tag props children key el)) (Some (Str new_vnode)) index d =
     (case remove_node parent (VNode tag props children key el) index d of
        Inl e \<Rightarrow> Inl e
      | Inr d1 \<Rightarrow>
          (case mount builtin parent (Str new_vnode) d1 of
             Inl e \<Rightarrow> Inl e
           | Inr (n, d2) \<Rightarrow> Inr (Some n, d2)))"
| "patch builtin parent (Some (VNode old_tag old_props old_children old_key old_el))
       (Some (VNode new_tag new_props new_children new_key new_el)) index d =
     (if old_tag \<noteq> new_tag
      then (case remove_node parent (VNode old_tag old_props old_children old_key old_el) index d of
              Inl e \<Rightarrow> Inl e
            | Inr d1 \<Rightarrow>
                (case mount builtin parent (VNode new_tag new_props new_children new_key new_el) d1 of
                   Inl e \<Rightarrow> Inl e
                 | Inr (n, d2) \<Rightarrow> Inr (Some n, d2)))
      else (case patch_props builtin old_el old_props new_props d of
              Inl e \<Rightarrow> Inl e
            | Inr d1 \<Rightarrow>
                (case (if has_keys new_children
                       then patch_keyed_children builtin old_el old_children new_children d1
                       else patch_children builtin old_el old_children new_children d1) of
                   Inl e \<Rightarrow> Inl e
                 | Inr (children', d2) \<Rightarrow>
                     Inr (Some (VNode new_tag new_props children' new_key old_el), d2))))"
| "patch_children builtin parent old_children new_children d =
     (let old_len = length old_children; new_len = length new_children
      in case patch_common builtin parent old_children new_children 0 d of
           Inl e \<Rightarrow> Inl e
         | Inr (patched, d1) \<Rightarrow>
             (case remove_extra parent (drop new_len old_children) new_len d1 of
                Inl e \<Rightarrow> Inl e
              | Inr d2 \<Rightarrow>
                  (case mount_each builtin parent (drop old_len new_children) d2 of
                     Inl e \<Rightarrow> Inl e
                   | Inr (mounted, d3) \<Rightarrow> Inr (patched @ mounted, d3))))"
| "patch_common builtin parent (old_child # old_rest) (new_child # new_rest) i d =
     (case patch builtin parent (Some old_child) (Some new_child) i d of
        Inl e \<Rightarrow> Inl e
      | Inr (r, d1) \<Rightarrow>
          (case patch_common builtin parent old_rest new_rest (Suc i) d1 of
             Inl e \<Rightarrow> Inl e
           | Inr (rest', d2) \<Rightarrow> Inr (after_call new_child r # rest', d2)))"
| "patch_common builtin parent [] new_children i d = Inr ([], d)"
| "patch_common builtin parent (old_child # old_rest) [] i d = Inr ([], d)"
| "patch_keyed_children builtin parent old_children new_children d =
     (let old_keyed = build_keyed old_children 0 []
      in case patch_keyed_loop builtin parent old_keyed new_children 0 {} d of
           Inl e \<Rightarrow> Inl e
         | Inr (children', used_keys, d1) \<Rightarrow>
             (case remove_unused parent old_keyed used_keys d1 of
                Inl e \<Rightarrow> Inl e
              | Inr d2 \<Rightarrow> Inr (children', d2)))"
| "patch_keyed_child builtin parent old_keyed key new_child new_idx d =
     (case map_of old_keyed key of
        Some (old_idx, old_child) \<Rightarrow>
          (case patch builtin parent (Some old_child) (Some new_child) new_idx d of
             Inl e \<Rightarrow> Inl e
           | Inr (r, d1) \<Rightarrow>
               if old_idx \<noteq> new_idx
               then (case move_node parent (el_of (after_call new_child r)) new_idx d1 of
                       Inl e \<Rightarrow> Inl e
                     | Inr d2 \<Rightarrow> Inr (after_call new_child r, d2))
               else Inr (after_call new_child r, d1))
      | None \<Rightarrow>
          (case mount builtin parent new_child d of
             Inl e \<Rightarrow> Inl e
           | Inr (n, d1) \<Rightarrow>
               (case childNodes_of parent d1 of
                  Inl e \<Rightarrow> Inl e
                | Inr cs \<Rightarrow>
                    if new_idx < length cs
                    then (case move_node parent (el_of n) new_idx d1 of
                            Inl e \<Rightarrow> Inl e
                          | Inr d2 \<Rightarrow> Inr (n, d2))
                    else Inr (n, d1))))"
| "patch_keyed_loop builtin parent old_keyed [] new_idx used_keys d = Inr ([], used_keys, d)"
| "patch_keyed_loop builtin parent old_keyed (new_child # rest) new_idx used_keys d =
     (case truthy_key new_child of
        None \<Rightarrow>
          (case patch_keyed_loop builtin parent old_keyed rest (Suc new_idx) used_keys d of
             Inl e \<Rightarrow> Inl e
           | Inr (rest', used', d') \<Rightarrow> Inr (new_child # rest', used', d'))
      | Some key \<Rightarrow>
          (case patch_keyed_child builtin parent old_keyed key new_child new_idx d of
             Inl e \<Rightarrow> Inl e
           | Inr (n, d2) \<Rightarrow>
               (case patch_keyed_loop builtin parent old_keyed rest (Suc new_idx)
                       (insert key used_keys) d2 of
                  Inl e \<Rightarrow> Inl e
                | Inr (rest', used', d3) \<Rightarrow> Inr (n # rest', used', d3))))"
  by pat_completeness auto

termination
  by (relation "measure (\<lambda>x. case x of
        Inl (Inl (builtin, parent, old_vnode, new_vnode, index, d)) \<Rightarrow>
          (case new_vnode of None \<Rightarrow> 0 | Some n \<Rightarrow> 4 * size n + 1)
      | Inl (Inr (Inl (builtin, parent, old_children, new_children, d))) \<Rightarrow>
          4 * size_list size new_children + 2
      | Inl (Inr (Inr (builtin, parent, old_children, new_children, i, d))) \<Rightarrow>
          4 * size_list size new_children + 1
      | Inr (Inl (builtin, parent, old_children, new_children, d)) \<Rightarrow>
          4 * size_list size new_children + 2
      | Inr (Inr (Inl (builtin, parent, old_keyed, key, new_child, new_idx, d))) \<Rightarrow>
          4 * size new_child + 2
      | Inr (Inr (Inr (builtin, parent, old_keyed, new_children, new_idx, used_keys, d))) \<Rightarrow>
          4 * size_list size new_children + 1)")
     auto

subsection \<open>Example documents and trees\<close>

definition empty_document :: document where
  "empty_document = \<lparr>nodes = (\<lambda>r. new_element (Some ''div'') []), next_ref = 1\<rparr>"

definition li :: "string \<Rightarrow> string \<Rightarrow> vchild" where
  "li k t = VNode ''li'' [] [Str t] (Some k) None"

definition keyed_list :: "string list \<Rightarrow> vchild" where
  "keyed_list ks = VNode ''ul'' [] (map (\<lambda>k. li k k) ks) None None"

definition run_example :: "vchild \<Rightarrow> vchild \<Rightarrow> js_error + (vchild \<times> vchild option \<times> ref list list \<times> nat)" where
  "run_example old new =
    (case mount (\<lambda>v. []) (Some 0) old empty_document of Inl e \<Rightarrow> Inl e
     | Inr (old', d1) \<Rightarrow>
       (case patch (\<lambda>v. []) (Some 0) (Some old') (Some new) 0 d1 of Inl e \<Rightarrow> Inl e
        | Inr (new', d2) \<Rightarrow> Inr (old', new', map (\<lambda>r. childNodes (nodes d2 r)) [0..<next_ref d2], next_ref d2)))"

subsection \<open>Vocabulary of the client runtime's proofs\<close>

text \<open>The host references held by a tree, and by a list of trees.\<close>

fun els :: "vchild \<Rightarrow> ref set" where
  "els (Str s) = {}"
| "els (VNode tag props children key el) = set_option el \<union> (\<Union>c\<in>set children. els c)"

definition els_list :: "vchild list \<Rightarrow> ref set" where
  "els_list cs = (\<Union>c\<in>set cs. els c)"

definition els_opt :: "vchild option \<Rightarrow> ref set" where
  "els_opt v = (case v of None \<Rightarrow> {} | Some n \<Rightarrow> els n)"

definition els_keyed :: "(string \<times> nat \<times> vchild) list \<Rightarrow> ref set" where
  "els_keyed keyed = (\<Union>(k, i, c)\<in>set keyed. els c)"

text \<open>
  What a run of the patcher may do to the child lists of the document it started from:
  only the nodes in \<open>R\<close> (and nodes created meanwhile) are attached or detached, and only
  the child lists of the nodes in \<open>Q\<close> (and of nodes created meanwhile) may lose a child
  that is not in \<open>R\<close>.
\<close>

definition step :: "ref set \<Rightarrow> ref set \<Rightarrow> document \<Rightarrow> document \<Rightarrow> bool" where
  "step R Q d d' \<longleftrightarrow>
     next_ref d \<le> next_ref d' \<and>
     (\<forall>e q. e < next_ref d \<and> e \<notin> R \<longrightarrow>
        (e \<in> set (childNodes (nodes d' q)) \<longrightarrow> e \<in> set (childNodes (nodes d q))) \<and>
        (q < next_ref d \<and> q \<notin> Q \<and> e \<in> set (childNodes (nodes d q)) \<longrightarrow>
           e \<in> set (childNodes (nodes d' q))))"

text \<open>Every node of the tree has a host reference.\<close>

fun mounted :: "vchild \<Rightarrow> bool" where
  "mounted (Str s) = True"
| "mounted (VNode tag props children key el) = (el \<noteq> None \<and> list_all mounted children)"

definition mounted_keyed :: "(string \<times> nat \<times> vchild) list \<Rightarrow> bool" where
  "mounted_keyed keyed = list_all (\<lambda>(k, i, c). mounted c) keyed"

text \<open>A document whose root 0 holds one mounted element 1.\<close>

definition ul_document :: document where
  "ul_document =
     \<lparr>nodes = (\<lambda>r. new_element (Some ''div'') [])
                (0 := (new_element (Some ''div'') [])\<lparr>childNodes := [1]\<rparr>),
      next_ref = 2\<rparr>"







text \<open>The tag and the children of a node; a string has neither.\<close>

fun tag_of :: "vchild \<Rightarrow> string option" where
  "tag_of (Str s) = None"
| "tag_of (VNode tag props children key el) = Some tag"

fun children_of :: "vchild \<Rightarrow> vchild list" where
  "children_of (Str s) = []"
| "children_of (VNode tag props children key el) = children"

section \<open>Properties of the hook engine\<close>

lemma use_state_no_context:
  "current_instance w = None \<Longrightarrow>
   use_state initial w = (Inl (RuntimeError ''use_state called outside component render''), w)"
  by (simp add: use_state_def)

lemma producer_calls_append [simp]:
  "producer_calls (xs @ ys) = producer_calls xs @ producer_calls ys"
  by (simp add: producer_calls_def)

lemma producer_calls_single [simp]:
  "producer_calls [ScheduleCall f] = []" "producer_calls [ProducerCall f] = [f]"
  by (simp_all add: producer_calls_def)

lemma use_state_inv:
  assumes "inv_idx r w"
  shows "\<exists>v w'. use_state initial w = (Inr (v, Setter r (hook_index (instances w r))), w') \<and>
     inv_idx r w' \<and>
     hook_index (instances w' r) = Suc (hook_index (instances w r)) \<and>
     length (state (instances w' r)) = max (length (state (instances w r))) (Suc (hook_index (instances w r)))"
  using assms
  by (cases initial) (auto simp: use_state_def inv_idx_def update_instance_def Let_def)

lemma use_state_existing:
  assumes "current_instance w = Some r" "hook_index (instances w r) < length (state (instances w r))"
  shows "use_state initial w =
    (Inr (state (instances w r) ! hook_index (instances w r), Setter r (hook_index (instances w r))),
     update_instance r (\<lambda>i. i\<lparr>hook_index := hook_index i + 1\<rparr>) w)"
  using assms by (simp add: use_state_def Let_def)

text \<open>The module state in which the setter runs the callback, or returns.\<close>

lemma set_value_cases:
  assumes "set_value invoke (Setter i idx) new w = (res, w')"
  shows "(res = Inl IndexError \<and> w' = w \<and> \<not> triggers (Setter i idx) w) \<or>
         (res = Inr () \<and> \<not> triggers (Setter i idx) w \<and>
          w' = update_instance i (\<lambda>x. x\<lparr>state := (state x)[idx := new]\<rparr>) w) \<or>
         (triggers (Setter i idx) w \<and>
          (\<exists>cb. invoke cb ((update_instance i (\<lambda>x. x\<lparr>state := (state x)[idx := new]\<rparr>) w)
                   \<lparr>calls := calls w @ [ScheduleCall cb]\<rparr>) = (res, w')))"
  using assms
  by (auto simp: set_value_def update_instance_def Let_def split: if_splits option.splits)

lemma set_value_safe:
  assumes "hook_safe invoke r k" "set_value invoke s new w = (Inr u, w')"
  shows "(length (state (instances w r)) \<le> k \<longrightarrow> length (state (instances w' r)) \<le> k) \<and>
         (k \<le> length (state (instances w r)) \<longrightarrow>
            length (state (instances w' r)) = length (state (instances w r)) \<and>
            producer_calls (calls w') = producer_calls (calls w)) \<and>
         (current_instance w' = None \<or>
          current_instance w' = current_instance w \<and>
          hook_index (instances w' r) = hook_index (instances w r) \<and>
          length (state (instances w' r)) = length (state (instances w r)))"
proof -
  obtain i idx where s: "s = Setter i idx" by (cases s)
  let ?w1 = "update_instance i (\<lambda>x. x\<lparr>state := (state x)[idx := new]\<rparr>) w"
  have a: "length (state (instances ?w1 r)) = length (state (instances w r))"
          "hook_index (instances ?w1 r) = hook_index (instances w r)"
          "current_instance ?w1 = current_instance w" "calls ?w1 = calls w"
    by (simp_all add: update_instance_def)
  from set_value_cases[OF assms(2)[unfolded s]]
  consider "w' = ?w1"
    | cb where "invoke cb (?w1\<lparr>calls := calls w @ [ScheduleCall cb]\<rparr>) = (Inr u, w')"
    by auto
  then show ?thesis
  proof cases
    case 1
    with a show ?thesis by simp
  next
    case 2
    let ?w2 = "?w1\<lparr>calls := calls w @ [ScheduleCall cb]\<rparr>"
    have b: "length (state (instances ?w2 r)) = length (state (instances w r))"
          "hook_index (instances ?w2 r) = hook_index (instances w r)"
          "current_instance ?w2 = current_instance w"
          "producer_calls (calls ?w2) = producer_calls (calls w)"
      by (simp_all add: update_instance_def)
    from assms(1) 2 have
      "(length (state (instances ?w2 r)) \<le> k \<longrightarrow> length (state (instances w' r)) \<le> k) \<and>
       (k \<le> length (state (instances ?w2 r)) \<longrightarrow>
           length (state (instances w' r)) = length (state (instances ?w2 r)) \<and>
           producer_calls (calls w') = producer_calls (calls ?w2)) \<and>
       (current_instance w' = None \<or>
         current_instance w' = current_instance ?w2 \<and>
         hook_index (instances w' r) = hook_index (instances ?w2 r) \<and>
         length (state (instances w' r)) = length (state (instances ?w2 r)))"
      unfolding hook_safe_def by blast
    then show ?thesis unfolding b .
  qed
qed

text \<open>Once no render is active, a component that returns calls no hook any more.\<close>

lemma exec_ended:
  assumes "hook_safe invoke r k"
  shows "current_instance w = None \<Longrightarrow> hook_calls c j \<Longrightarrow> exec invoke c w = (Inr a, w') \<Longrightarrow>
     j = 0 \<and> current_instance w' = None \<and>
     (length (state (instances w r)) \<le> k \<longrightarrow> length (state (instances w' r)) \<le> k) \<and>
     (k \<le> length (state (instances w r)) \<longrightarrow>
        length (state (instances w' r)) = length (state (instances w r)) \<and>
        producer_calls (calls w') = producer_calls (calls w))"
proof (induction c arbitrary: w j)
  case (Return x)
  then show ?case by simp
next
  case (Raise e)
  then show ?case by simp
next
  case (UseState initial f)
  then show ?case by (simp add: use_state_no_context)
next
  case (SetValue s v c)
  from SetValue.prems(3) obtain u w1 where
    sv: "set_value invoke s v w = (Inr u, w1)" and e: "exec invoke c w1 = (Inr a, w')"
    by (auto split: prod.splits sum.splits)
  note safe = set_value_safe[OF assms sv]
  from safe SetValue.prems(1) have n: "current_instance w1 = None" by auto
  from SetValue.prems(2) have h: "hook_calls c j" by simp
  from SetValue.IH[OF n h e] safe show ?case by auto
qed

lemma exec_active:
  assumes "hook_safe invoke r k"
  shows "inv_idx r w \<Longrightarrow> hook_calls c j \<Longrightarrow> hook_index (instances w r) + j = k \<Longrightarrow>
     exec invoke c w = (Inr a, w') \<Longrightarrow>
     length (state (instances w' r)) = max (length (state (instances w r))) k \<and>
     (k \<le> length (state (instances w r)) \<longrightarrow> producer_calls (calls w') = producer_calls (calls w))"
proof (induction c arbitrary: w j)
  case (Return x)
  then show ?case by (auto simp: inv_idx_def)
next
  case (Raise e)
  then show ?case by simp
next
  case (UseState initial f)
  obtain j' where j: "j = Suc j'" and hj: "\<And>v s. hook_calls (f v s) j'"
    using UseState.prems(2) by (cases j) auto
  let ?h = "hook_index (instances w r)"
  obtain v w1 where u: "use_state initial w = (Inr (v, Setter r ?h), w1)"
    and i: "inv_idx r w1"
    and h: "hook_index (instances w1 r) = Suc ?h"
    and l: "length (state (instances w1 r)) = max (length (state (instances w r))) (Suc ?h)"
    using use_state_inv[OF UseState.prems(1)] by blast
  from UseState.prems(4) u have e: "exec invoke (f v (Setter r ?h)) w1 = (Inr a, w')" by simp
  from UseState.prems(3) h j have k: "hook_index (instances w1 r) + j' = k" by simp
  note ih = UseState.IH[OF rangeI rangeI i hj k e]
  have p: "producer_calls (calls w1) = producer_calls (calls w)" if "k \<le> length (state (instances w r))"
  proof -
    from that UseState.prems(3) j have lt: "?h < length (state (instances w r))" by simp
    from UseState.prems(1) have c: "current_instance w = Some r" by (simp add: inv_idx_def)
    from use_state_existing[OF c lt, of initial] u show ?thesis by (simp add: update_instance_def)
  qed
  from UseState.prems(3) j have "Suc ?h \<le> k" by simp
  with ih l p show ?case by auto
next
  case (SetValue s v c)
  from SetValue.prems(4) obtain u w1 where
    sv: "set_value invoke s v w = (Inr u, w1)" and e: "exec invoke c w1 = (Inr a, w')"
    by (auto split: prod.splits sum.splits)
  note safe = set_value_safe[OF assms sv]
  from SetValue.prems(2) have h: "hook_calls c j" by simp
  show ?case
  proof (cases "current_instance w1 = None")
    case True
    from exec_ended[OF assms True h e] have j0: "j = 0"
      and keep: "k \<le> length (state (instances w1 r)) \<Longrightarrow>
        length (state (instances w' r)) = length (state (instances w1 r)) \<and>
        producer_calls (calls w') = producer_calls (calls w1)"
      by auto
    from j0 SetValue.prems(1,3) have kl: "k \<le> length (state (instances w r))"
      by (simp add: inv_idx_def)
    with safe have l1: "length (state (instances w1 r)) = length (state (instances w r))"
      and p1: "producer_calls (calls w1) = producer_calls (calls w)" by auto
    from keep kl l1 p1 show ?thesis by (simp add: max_def)
  next
    case False
    with safe have same: "current_instance w1 = current_instance w"
      "hook_index (instances w1 r) = hook_index (instances w r)"
      "length (state (instances w1 r)) = length (state (instances w r))" by auto
    with SetValue.prems(1) have i: "inv_idx r w1" by (simp add: inv_idx_def)
    from SetValue.prems(3) same have k: "hook_index (instances w1 r) + j = k" by simp
    from SetValue.IH[OF i h k e] safe same show ?thesis by auto
  qed
qed

lemma exec_pure_state:
  "inv_idx r w \<Longrightarrow> hook_calls c k \<Longrightarrow> no_set_value c \<Longrightarrow> exec invoke c w = (res, w') \<Longrightarrow>
   hook_index (instances w r) + k \<le> length (state (instances w r)) \<Longrightarrow>
   state (instances w' r) = state (instances w r) \<and> calls w' = calls w"
proof (induction c arbitrary: w k)
  case (UseState initial f)
  obtain j where k: "k = Suc j" and hj: "\<And>v s. hook_calls (f v s) j"
    using UseState.prems(2) by (cases k) auto
  let ?i = "hook_index (instances w r)"
  from UseState.prems(1,5) k have c: "current_instance w = Some r" and lt: "?i < length (state (instances w r))"
    by (auto simp: inv_idx_def)
  let ?w1 = "update_instance r (\<lambda>i. i\<lparr>hook_index := hook_index i + 1\<rparr>) w"
  note u = use_state_existing[OF c lt, of initial]
  have i: "inv_idx r ?w1" using UseState.prems(1) lt by (auto simp: inv_idx_def update_instance_def)
  from UseState.prems(4) u have e: "exec invoke (f (state (instances w r) ! ?i) (Setter r ?i)) ?w1 = (res, w')" by simp
  have b: "hook_index (instances ?w1 r) + j \<le> length (state (instances ?w1 r))"
    using UseState.prems(5) k by (simp add: update_instance_def)
  have n: "no_set_value (f (state (instances w r) ! ?i) (Setter r ?i))" using UseState.prems(3) by simp
  from UseState.IH[OF rangeI rangeI i hj n e b] show ?case by (simp add: update_instance_def)
qed auto

lemma render_inv:
  "inv_idx instance (update_instance instance (\<lambda>i. i\<lparr>hook_index := 0\<rparr>) (w\<lparr>current_instance := Some instance\<rparr>))"
  by (simp add: inv_idx_def update_instance_def)

lemma render_component_length:
  assumes "hook_safe invoke instance k" "hook_calls (component_fn p) k"
      and "render_component invoke component_fn p instance w = (Inr a, w')"
  shows "length (state (instances w' instance)) = max (length (state (instances w instance))) k \<and>
         (k \<le> length (state (instances w instance)) \<longrightarrow>
            producer_calls (calls w') = producer_calls (calls w)) \<and>
         current_instance w' = None"
proof -
  let ?w1 = "update_instance instance (\<lambda>i. i\<lparr>hook_index := 0\<rparr>) (w\<lparr>current_instance := Some instance\<rparr>)"
  from assms(3) obtain w2 where e: "exec invoke (component_fn p) ?w1 = (Inr a, w2)"
    and w': "w' = w2\<lparr>current_instance := None\<rparr>"
    by (auto simp: render_component_def Let_def split: prod.splits sum.splits)
  have k: "hook_index (instances ?w1 instance) + k = k" by (simp add: update_instance_def)
  from exec_active[OF assms(1) render_inv assms(2) k e] w' show ?thesis
    by (simp add: update_instance_def)
qed

lemma render_component_pure:
  assumes "hook_calls (component_fn p) k" "no_set_value (component_fn p)"
      and "render_component invoke component_fn p instance w = (res, w')"
      and "k \<le> length (state (instances w instance))"
  shows "state (instances w' instance) = state (instances w instance) \<and> calls w' = calls w"
proof -
  let ?w1 = "update_instance instance (\<lambda>i. i\<lparr>hook_index := 0\<rparr>) (w\<lparr>current_instance := Some instance\<rparr>)"
  obtain x w2 where e: "exec invoke (component_fn p) ?w1 = (x, w2)" by (cases "exec invoke (component_fn p) ?w1")
  have b: "hook_index (instances ?w1 instance) + k \<le> length (state (instances ?w1 instance))"
    using assms(4) by (simp add: update_instance_def)
  have "calls w' = calls w2 \<and> instances w' = instances w2" using assms(3) e
    by (auto simp: render_component_def Let_def split: sum.splits)
  with exec_pure_state[OF render_inv assms(1,2) e b] show ?thesis
    by (simp add: update_instance_def)
qed

text \<open>
  The callbacks that the slots can live with: the one that does nothing, and the
  re-render that the client runtime registers.
\<close>

lemma inert_safe: "hook_safe inert inst k"
  by (auto simp: hook_safe_def inert_def)

lemma rerender_safe:
  assumes "\<forall>p. hook_calls (component_fn p) k"
  shows "hook_safe (rerender depth component_fn props inst) inst k"
proof (induction depth)
  case 0
  show ?case by (simp add: hook_safe_def)
next
  case (Suc depth)
  show ?case
    unfolding hook_safe_def
  proof (intro allI impI)
    fix cb w u w'
    assume "rerender (Suc depth) component_fn props inst cb w = (Inr u, w')"
    then obtain a where
      r: "render_component (rerender depth component_fn props inst) component_fn props inst w = (Inr a, w')"
      by (auto split: prod.splits sum.splits)
    from assms have h: "hook_calls (component_fn props) k" by simp
    from render_component_length[OF Suc h r]
    show "(length (state (instances w inst)) \<le> k \<longrightarrow> length (state (instances w' inst)) \<le> k) \<and>
        (k \<le> length (state (instances w inst)) \<longrightarrow>
           length (state (instances w' inst)) = length (state (instances w inst)) \<and>
           producer_calls (calls w') = producer_calls (calls w)) \<and>
        (current_instance w' = None \<or>
         current_instance w' = current_instance w \<and>
         hook_index (instances w' inst) = hook_index (instances w inst) \<and>
         length (state (instances w' inst)) = length (state (instances w inst)))"
      by auto
  qed
qed

lemma run_actions_after:
  assumes "hook_safe invoke inst k" "\<forall>p. hook_calls (component_fn p) k"
  shows "length (state (instances w inst)) = k \<Longrightarrow>
     run_actions invoke component_fn inst acts w = Inr w' \<Longrightarrow>
     length (state (instances w' inst)) = k \<and>
     producer_calls (calls w') = producer_calls (calls w)"
proof (induction acts arbitrary: w)
  case Nil
  then show ?case by simp
next
  case (Cons act acts)
  show ?case
  proof (cases act)
    case (Render p)
    from Cons.prems(2) Render obtain a w1 where
      r: "render_component invoke component_fn p inst w = (Inr a, w1)"
      and rest: "run_actions invoke component_fn inst acts w1 = Inr w'"
      by (auto split: prod.splits sum.splits)
    from assms(2) have h: "hook_calls (component_fn p) k" by simp
    from render_component_length[OF assms(1) h r] Cons.prems(1)
    have l: "length (state (instances w1 inst)) = k"
      and c: "producer_calls (calls w1) = producer_calls (calls w)" by simp_all
    from Cons.IH[OF l rest] c show ?thesis by simp
  next
    case (Set s v)
    from Cons.prems(2) Set obtain u w1 where r: "set_value invoke s v w = (Inr u, w1)"
      and rest: "run_actions invoke component_fn inst acts w1 = Inr w'"
      by (auto split: prod.splits sum.splits)
    from set_value_safe[OF assms(1) r] Cons.prems(1)
    have l: "length (state (instances w1 inst)) = k"
      and c: "producer_calls (calls w1) = producer_calls (calls w)" by simp_all
    from Cons.IH[OF l rest] c show ?thesis by simp
  next
    case (Register cb)
    let ?w1 = "update_instance inst (\<lambda>i. i\<lparr>schedule_update := cb\<rparr>) w"
    from Cons.prems(2) Register have rest: "run_actions invoke component_fn inst acts ?w1 = Inr w'" by simp
    have "length (state (instances ?w1 inst)) = k" using Cons.prems(1) by (simp add: update_instance_def)
    from Cons.IH[OF this rest] show ?thesis by (simp add: update_instance_def)
  qed
qed

lemma run_actions_append:
  "run_actions invoke component_fn inst (xs @ ys) w =
   (case run_actions invoke component_fn inst xs w of
      Inl e \<Rightarrow> Inl e
    | Inr w1 \<Rightarrow> run_actions invoke component_fn inst ys w1)"
proof (induction xs arbitrary: w)
  case (Cons act xs)
  then show ?case by (cases act) (auto split: prod.splits sum.splits)
qed simp

lemma run_actions_le:
  assumes "hook_safe invoke inst k" "\<forall>p. hook_calls (component_fn p) k"
  shows "length (state (instances w inst)) \<le> k \<Longrightarrow>
     run_actions invoke component_fn inst acts w = Inr w' \<Longrightarrow>
     length (state (instances w' inst)) \<le> k"
proof (induction acts arbitrary: w)
  case Nil
  then show ?case by simp
next
  case (Cons act acts)
  show ?case
  proof (cases act)
    case (Render p)
    from Cons.prems(2) Render obtain a w1 where
      r: "render_component invoke component_fn p inst w = (Inr a, w1)"
      and rest: "run_actions invoke component_fn inst acts w1 = Inr w'"
      by (auto split: prod.splits sum.splits)
    from assms(2) have h: "hook_calls (component_fn p) k" by simp
    from render_component_length[OF assms(1) h r] Cons.prems(1)
    have l: "length (state (instances w1 inst)) \<le> k" by simp
    from Cons.IH[OF l rest] show ?thesis by simp
  next
    case (Set s v)
    from Cons.prems(2) Set obtain u w1 where r: "set_value invoke s v w = (Inr u, w1)"
      and rest: "run_actions invoke component_fn inst acts w1 = Inr w'"
      by (auto split: prod.splits sum.splits)
    from set_value_safe[OF assms(1) r] Cons.prems(1)
    have l: "length (state (instances w1 inst)) \<le> k" by simp
    from Cons.IH[OF l rest] show ?thesis by simp
  next
    case (Register cb)
    let ?w1 = "update_instance inst (\<lambda>i. i\<lparr>schedule_update := cb\<rparr>) w"
    from Cons.prems(2) Register have rest: "run_actions invoke component_fn inst acts ?w1 = Inr w'" by simp
    have "length (state (instances ?w1 inst)) \<le> k" using Cons.prems(1) by (simp add: update_instance_def)
    from Cons.IH[OF this rest] show ?thesis by (simp add: update_instance_def)
  qed
qed

lemma run_renders_pure:
  assumes "\<forall>p. hook_calls (component_fn p) k" "\<forall>p. no_set_value (component_fn p)"
  shows "length (state (instances w inst)) = k \<Longrightarrow> \<forall>a\<in>set acts. is_render a \<Longrightarrow>
     run_actions invoke component_fn inst acts w = Inr w' \<Longrightarrow>
     state (instances w' inst) = state (instances w inst) \<and> calls w' = calls w"
proof (induction acts arbitrary: w)
  case Nil
  then show ?case by simp
next
  case (Cons act acts)
  from Cons.prems(2) obtain p where act: "act = Render p" by (cases act) auto
  from Cons.prems(3) act obtain a w1 where
      r: "render_component invoke component_fn p inst w = (Inr a, w1)"
      and rest: "run_actions invoke component_fn inst acts w1 = Inr w'"
      by (auto split: prod.splits sum.splits)
  from assms have h: "hook_calls (component_fn p) k" and n: "no_set_value (component_fn p)" by simp_all
  from render_component_pure[OF h n r] Cons.prems(1)
  have s: "state (instances w1 inst) = state (instances w inst)" and c: "calls w1 = calls w" by simp_all
  from s Cons.prems(1) have l: "length (state (instances w1 inst)) = k" by simp
  from Cons.IH[OF l _ rest] Cons.prems(2) s c show ?case by simp
qed

text \<open>
  C2. A component that calls the state hook exactly \<open>k\<close> times on each render is rendered
  on a fresh instance, among any setter calls and callback registrations, with callbacks
  that the slots can live with (the re-render of the client runtime is one, as is a
  callback that touches nothing). After any render of the sequence
  (\<open>pre @ [Render p]\<close> holds at least one) the instance has exactly \<open>k\<close> state slots, and
  so it has at the end; whatever follows that render invokes no initial-value producer
  again; and when nothing calls a setter, the later renders leave the slots as that render
  left them, whatever initial values they pass.
\<close>

theorem hook_slot_count:
  assumes "\<forall>p. hook_calls (component_fn p) k"
      and "hook_safe invoke inst k"
      and "state (instances w inst) = []"
      and "run_actions invoke component_fn inst (pre @ Render p # post) w = Inr w'"
  shows "\<exists>w1. run_actions invoke component_fn inst (pre @ [Render p]) w = Inr w1 \<and>
           length (state (instances w1 inst)) = k \<and>
           length (state (instances w' inst)) = k \<and>
           producer_calls (calls w') = producer_calls (calls w1) \<and>
           ((\<forall>q. no_set_value (component_fn q)) \<and> (\<forall>a\<in>set post. is_render a) \<longrightarrow>
              state (instances w' inst) = state (instances w1 inst))"
proof -
  from assms(4) obtain w0 where pre: "run_actions invoke component_fn inst pre w = Inr w0"
    and r0: "run_actions invoke component_fn inst (Render p # post) w0 = Inr w'"
    by (auto simp: run_actions_append split: sum.splits)
  from r0 obtain a w1 where r: "render_component invoke component_fn p inst w0 = (Inr a, w1)"
    and rest: "run_actions invoke component_fn inst post w1 = Inr w'"
    by (auto split: prod.splits sum.splits)
  from run_actions_le[OF assms(2,1) _ pre] assms(3) have le: "length (state (instances w0 inst)) \<le> k" by simp
  from assms(1) have h: "hook_calls (component_fn p) k" by simp
  from render_component_length[OF assms(2) h r] le have l1: "length (state (instances w1 inst)) = k" by simp
  have p1: "run_actions invoke component_fn inst (pre @ [Render p]) w = Inr w1"
    using pre r by (simp add: run_actions_append)
  note after = run_actions_after[OF assms(2,1) l1 rest]
  have "state (instances w' inst) = state (instances w1 inst)"
    if "\<forall>q. no_set_value (component_fn q)" "\<forall>a\<in>set post. is_render a"
    using run_renders_pure[OF assms(1) that(1) l1 that(2) rest] by simp
  with p1 l1 after show ?thesis by blast
qed

lemmas eval_defs = empty_world_def example_form_def example_failing_def new_instance_def
  render_component_def use_state_def set_value_def update_instance_def Let_def producer_calls_def

theorem hook_slot_count_witness:
  "(\<forall>p. hook_calls (example_form p) 2) \<and>
   hook_safe (rerender (Suc 0) example_form () 0) 0 2 \<and>
   state (instances empty_world 0) = [] \<and>
   (\<exists>w'. run_actions (rerender (Suc 0) example_form () 0) example_form 0
            ([] @ Render () # [Register (Some (Callback True 9)), Set (Setter 0 0) 5, Render ()])
            empty_world = Inr w' \<and>
      length (state (instances w' 0)) = 2 \<and>
      producer_calls (calls w') = [7])"
proof -
  let ?invoke = "rerender (Suc 0) example_form () 0 :: int invoke"
  have h: "\<forall>p. hook_calls (example_form p) 2" by (simp add: example_form_def numeral_2_eq_2)
  note s = rerender_safe[OF h, of "Suc 0" "()" 0]
  have f: "state (instances empty_world 0) = []" by (simp add: empty_world_def new_instance_def)
  obtain w' where r: "run_actions ?invoke example_form 0
      ([] @ Render () # [Register (Some (Callback True 9)), Set (Setter 0 0) 5, Render ()]) empty_world = Inr w'"
    by (simp add: eval_defs)
  have p: "producer_calls (calls (snd (render_component ?invoke example_form () 0 empty_world))) = [7]"
    by (simp add: eval_defs)
  have q: "run_actions ?invoke example_form 0 ([] @ [Render ()]) empty_world =
             Inr (snd (render_component ?invoke example_form () 0 empty_world))"
    by (simp add: eval_defs)
  from hook_slot_count[OF h s f r] q p r h f s show ?thesis by auto
qed

text \<open>
  C7. Called while no instance is the active rendering context, \<^verbatim>\<open>use_state\<close> fails with
  the RuntimeError "use_state called outside component render", the module state is
  exactly what it was (nothing read into a slot, nothing written), and the error is the
  result of the code that made the call.
\<close>

theorem use_state_outside_render:
  "current_instance w = None \<Longrightarrow>
   use_state initial w = (Inl (RuntimeError ''use_state called outside component render''), w) \<and>
   exec invoke (UseState initial k) w = (Inl (RuntimeError ''use_state called outside component render''), w)"
  by (simp add: use_state_def)

theorem use_state_outside_render_witness:
  "current_instance empty_world = None \<and>
   use_state (Value 3) empty_world =
     (Inl (RuntimeError ''use_state called outside component render''), empty_world) \<and>
   exec inert (UseState (Value 3) (\<lambda>v s. Return v)) empty_world =
     (Inl (RuntimeError ''use_state called outside component render''), empty_world)"
proof -
  have c: "current_instance empty_world = None" by (simp add: empty_world_def)
  from use_state_outside_render[OF c, of "Value 3" inert "\<lambda>v s. Return v"] c show ?thesis by simp
qed





text \<open>
  C8. \<^verbatim>\<open>render_component\<close> runs the component function on the props with the active
  instance set to the given instance and its hook index reset to 0; when the component
  returns a node, that node is the result, the active-instance pointer is cleared, and a
  hook call made afterwards fails with the context error.
\<close>

theorem render_component_contract:
  "let w1 = update_instance inst (\<lambda>i. i\<lparr>hook_index := 0\<rparr>) (w\<lparr>current_instance := Some inst\<rparr>)
   in current_instance w1 = Some inst \<and> hook_index (instances w1 inst) = 0 \<and>
      (\<forall>vnode w2. exec invoke (component_fn props) w1 = (Inr vnode, w2) \<longrightarrow>
         render_component invoke component_fn props inst w = (Inr vnode, w2\<lparr>current_instance := None\<rparr>) \<and>
         current_instance (snd (render_component invoke component_fn props inst w)) = None \<and>
         (\<forall>initial. fst (use_state initial (snd (render_component invoke component_fn props inst w))) =
            Inl (RuntimeError ''use_state called outside component render'')))"
  by (simp add: render_component_def Let_def update_instance_def use_state_def)

theorem render_component_contract_witness:
  "render_component inert example_form () 0 empty_world =
     (Inr 1, \<lparr>current_instance = None,
              instances = (\<lambda>r. new_instance)(0 := \<lparr>state = [0, 1], hook_index = 2, schedule_update = None\<rparr>),
              calls = [ProducerCall 7]\<rparr>) \<and>
   fst (use_state (Value 3) (snd (render_component inert example_form () 0 empty_world))) =
     Inl (RuntimeError ''use_state called outside component render'')"
proof -
  let ?w1 = "update_instance 0 (\<lambda>i. i\<lparr>hook_index := 0\<rparr>) (empty_world\<lparr>current_instance := Some 0\<rparr>)"
  let ?w2 = "\<lparr>current_instance = Some 0,
              instances = (\<lambda>r. new_instance)(0 := \<lparr>state = [0, 1], hook_index = 2, schedule_update = None\<rparr>),
              calls = [ProducerCall 7]\<rparr> :: int world"
  have e: "exec inert (example_form ()) ?w1 = (Inr 1, ?w2)"
    by (simp add: eval_defs fun_eq_iff)
  from render_component_contract[of 0 empty_world inert example_form "()"] e
  have "render_component inert example_form () 0 empty_world = (Inr 1, ?w2\<lparr>current_instance := None\<rparr>) \<and>
        fst (use_state (Value 3) (snd (render_component inert example_form () 0 empty_world))) =
          Inl (RuntimeError ''use_state called outside component render'')"
    unfolding Let_def by blast
  then show ?thesis by auto
qed






section \<open>Properties of the string renderer\<close>

lemma replace_char_Nil [simp]: "replace_char c r [] = []"
  by (simp add: replace_char_def)

lemma replace_char_Cons [simp]:
  "replace_char c r (x # s) = (if x = c then r else [x]) @ replace_char c r s"
  by (simp add: replace_char_def)

lemma replace_char_append [simp]:
  "replace_char c r (a @ b) = replace_char c r a @ replace_char c r b"
  by (simp add: replace_char_def)

lemma esc_Nil [simp]: "esc [] = []"
  by (simp add: esc_def)

lemma esc_Cons: "esc (c # s) = esc_char c @ esc s"
  by (simp add: esc_def esc_char_def)

lemma esc_chars: "esc s = concat (map esc_char s)"
  by (induction s) (simp_all add: esc_Cons)

lemma esc_append: "esc (a @ b) = esc a @ esc b"
  by (simp add: esc_chars)

lemma count_esc_char:
  assumes "special d" "d \<noteq> CHR ''&''"
  shows "count_list (esc_char c) d = 0"
proof -
  from assms have "d = CHR ''<'' \<or> d = CHR ''>'' \<or> d = CHR 0x22 \<or> d = CHR 0x27"
    by (simp add: special_def)
  then show ?thesis by (elim disjE) (simp_all add: esc_char_def)
qed

lemma count_list_concat: "count_list (concat xss) d = sum_list (map (\<lambda>xs. count_list xs d) xss)"
  by (induction xss) simp_all

lemma count_esc: "special d \<Longrightarrow> d \<noteq> CHR ''&'' \<Longrightarrow> count_list (esc s) d = 0"
  by (induction s) (simp_all add: esc_Cons count_esc_char)

lemma amp_ok_append: "amp_ok a \<Longrightarrow> amp_ok b \<Longrightarrow> amp_ok (a @ b)"
  by (induction a) (auto intro: prefix_prefix)

lemma amp_ok_plain: "list_all (\<lambda>c. \<not> special c) s \<Longrightarrow> amp_ok s"
  by (induction s) (auto simp: special_def)

lemma amp_ok_esc_char: "amp_ok (esc_char c @ s) = amp_ok s"
  by (simp add: esc_char_def)

lemma amp_ok_esc: "amp_ok (esc s)"
  by (induction s) (simp_all add: esc_Cons amp_ok_esc_char)

lemma attr_parts_loop_eq:
  "attr_parts_loop builtin props acc = acc @ map (attr_markup builtin) (emitted props)"
proof (induction props arbitrary: acc)
  case Nil
  then show ?case by (simp add: emitted_def)
next
  case (Cons kv props)
  obtain k v where kv: "kv = (k, v)" by (cases kv)
  have e: "emitted (kv # props) =
      (if \<not> prefix ''on_'' k \<and> v \<noteq> PBool False \<and> v \<noteq> PNone then [kv] else []) @ emitted props"
    by (simp add: emitted_def kv)
  show ?case
    unfolding e by (simp add: kv Cons.IH attr_markup_def esc_chars)
qed

lemma count_join:
  "d \<noteq> CHR '' '' \<Longrightarrow> count_list (join '' '' xs) d = sum_list (map (\<lambda>x. count_list x d) xs)"
  by (induction "'' ''" xs rule: join.induct) simp_all

lemma amp_ok_join: "list_all amp_ok xs \<Longrightarrow> amp_ok (join '' '' xs)"
  by (induction "'' ''" xs rule: join.induct) (simp_all add: amp_ok_append)

lemma amp_ok_concat: "list_all amp_ok xs \<Longrightarrow> amp_ok (concat xs)"
  by (induction xs) (simp_all add: amp_ok_append)

lemma sublist_concat_mem: "x \<in> set xs \<Longrightarrow> sublist x (concat xs)"
proof (induction xs)
  case (Cons a xs)
  show ?case
  proof (cases "x = a")
    case True
    then show ?thesis by (simp add: sublist_appendI)
  next
    case False
    with Cons have "sublist x (concat xs)" by simp
    then show ?thesis by (simp add: sublist_append)
  qed
qed simp

lemma sublist_join_mem: "x \<in> set xs \<Longrightarrow> sublist x (join sep xs)"
proof (induction sep xs rule: join.induct)
  case (3 sep a b ys)
  show ?case
  proof (cases "x = a")
    case True
    then show ?thesis by (simp add: sublist_appendI)
  next
    case False
    with 3 have "sublist x (join sep (b # ys))" by simp
    then show ?thesis by (simp add: sublist_append)
  qed
qed auto

lemma render_node:
  "render_to_string builtin (VNode tag props children key el) =
     ''<'' @ tag @ attrs_string builtin props @ ''>'' @
     concat (map (render_to_string builtin) children) @ ''</'' @ tag @ ''>''"
  by (simp add: attr_parts_loop_eq attrs_string_def Let_def)

lemma texts_sublist:
  "t \<in> set (texts n) \<Longrightarrow> sublist (concat (map esc_char t)) (render_to_string builtin n)"
proof (induction n)
  case (Str s)
  then show ?case by (simp add: esc_chars)
next
  case (VNode tag props children key el)
  from VNode.prems obtain c where c: "c \<in> set children" and t: "t \<in> set (texts c)" by auto
  from VNode.IH[OF c t] have "sublist (concat (map esc_char t)) (render_to_string builtin c)" .
  moreover have "sublist (render_to_string builtin c) (concat (map (render_to_string builtin) children))"
    using c by (intro sublist_concat_mem) simp
  ultimately have "sublist (concat (map esc_char t)) (concat (map (render_to_string builtin) children))"
    by (rule sublist_order.order_trans)
  then show ?case unfolding render_node by (simp only: sublist_append) blast
qed

lemma attrs_sublist:
  assumes "kv \<in> set (emitted props)"
  shows "sublist (attr_markup builtin kv) (attrs_string builtin props)"
proof -
  from assms have ne: "emitted props \<noteq> []" by auto
  have "sublist (attr_markup builtin kv) (join '' '' (map (attr_markup builtin) (emitted props)))"
    using assms by (intro sublist_join_mem) simp
  then show ?thesis using ne by (simp add: attrs_string_def sublist_Cons_right)
qed

lemma attr_values_sublist:
  "kv \<in> set (attr_values n) \<Longrightarrow> sublist (attr_markup builtin kv) (render_to_string builtin n)"
proof (induction n)
  case (Str s)
  then show ?case by simp
next
  case (VNode tag props children key el)
  from VNode.prems consider "kv \<in> set (valued props)"
    | c where "c \<in> set children" "kv \<in> set (attr_values c)" by auto
  then show ?case
  proof cases
    case 1
    then have "kv \<in> set (emitted props)" by (simp add: valued_def)
    from attrs_sublist[OF this] show ?thesis
      unfolding render_node by (simp only: sublist_append) blast
  next
    case 2
    from VNode.IH[OF 2] have "sublist (attr_markup builtin kv) (render_to_string builtin c)" .
    moreover have "sublist (render_to_string builtin c) (concat (map (render_to_string builtin) children))"
      using 2(1) by (intro sublist_concat_mem) simp
    ultimately have "sublist (attr_markup builtin kv) (concat (map (render_to_string builtin) children))"
      by (rule sublist_order.order_trans)
    then show ?thesis unfolding render_node by (simp only: sublist_append) blast
  qed
qed

lemma count_plain: "list_all (\<lambda>c. \<not> special c) s \<Longrightarrow> special d \<Longrightarrow> count_list s d = 0"
  by (induction s) auto

lemma count_attr_markup:
  assumes "list_all (\<lambda>c. \<not> special c) k" "special d" "d \<noteq> CHR ''&''"
  shows "count_list (attr_markup builtin (k, v)) d =
           (if d = CHR 0x22 \<and> v \<noteq> PBool True then 2 else 0)"
proof -
  have e: "count_list (concat (map esc_char (py_str builtin v))) d = 0"
    using count_esc[OF assms(2,3)] by (simp add: esc_chars)
  have q: "\<not> special CHR ''=''" by (simp add: special_def)
  show ?thesis using count_plain[OF assms(1,2)] e q assms(2)
    by (auto simp: attr_markup_def)
qed

lemma count_attr_parts:
  assumes "list_all (\<lambda>(k, v). list_all (\<lambda>c. \<not> special c) k) kvs" "special d" "d \<noteq> CHR ''&''"
  shows "sum_list (map (\<lambda>kv. count_list (attr_markup builtin kv) d) kvs) =
           (if d = CHR 0x22 then 2 * length (filter (\<lambda>(k, v). v \<noteq> PBool True) kvs) else 0)"
  using assms(1)
proof (induction kvs)
  case Nil
  then show ?case by simp
next
  case (Cons kv kvs)
  obtain k v where kv: "kv = (k, v)" by (cases kv)
  from Cons.prems kv have p: "list_all (\<lambda>c. \<not> special c) k" by simp
  from Cons show ?case
    by (simp add: kv count_attr_markup[OF p assms(2,3)])
qed

lemma count_attrs_string:
  assumes "list_all (\<lambda>(k, v). list_all (\<lambda>c. \<not> special c) k) (emitted props)"
      "special d" "d \<noteq> CHR ''&''"
  shows "count_list (attrs_string builtin props) d =
           (if d = CHR 0x22 then 2 * length (valued props) else 0)"
proof -
  have sp: "d \<noteq> CHR '' ''" using assms(2) by (auto simp: special_def)
  show ?thesis
    using count_attr_parts[OF assms, of builtin] sp
    by (cases "d = CHR 0x22") (simp_all add: attrs_string_def count_join valued_def comp_def)
qed

lemma delimiters_node:
  "delimiters d (VNode tag props children key el) =
     (if d = CHR ''<'' \<or> d = CHR ''>'' then 2 else 0) +
     (if d = CHR 0x22 then 2 * length (valued props) else 0) +
     sum_list (map (delimiters d) children)"
proof -
  have a: "sum_list (map (\<lambda>c. 2 * elements c) children) = 2 * sum_list (map elements children)"
    by (induction children) simp_all
  have b: "sum_list (map (\<lambda>c. 2 * length (attr_values c)) children) =
           2 * length (concat (map attr_values children))"
    by (induction children) simp_all
  have m: "map (delimiters d) children =
      map (\<lambda>c. if d = CHR ''<'' \<or> d = CHR ''>'' then 2 * elements c
               else if d = CHR 0x22 then 2 * length (attr_values c) else 0) children"
    by (simp add: delimiters_def)
  show ?thesis
    unfolding m by (simp add: delimiters_def a b)
qed

lemma count_render:
  assumes "special d" "d \<noteq> CHR ''&''"
  shows "plain_names n \<Longrightarrow> count_list (render_to_string builtin n) d = delimiters d n"
proof (induction n)
  case (Str s)
  then show ?case using count_esc[OF assms] by (simp add: delimiters_def)
next
  case (VNode tag props children key el)
  from VNode.prems have t: "list_all (\<lambda>c. \<not> special c) tag"
    and a: "list_all (\<lambda>(k, v). list_all (\<lambda>c. \<not> special c) k) (emitted props)"
    and c: "list_all plain_names children" by simp_all
  have inner: "count_list (concat (map (render_to_string builtin) children)) d =
               sum_list (map (delimiters d) children)"
  proof -
    have "\<And>x. x \<in> set children \<Longrightarrow> count_list (render_to_string builtin x) d = delimiters d x"
      using VNode.IH c by (simp add: list_all_iff)
    then have "sum_list (map (\<lambda>c. count_list (render_to_string builtin c) d) children) =
               sum_list (map (delimiters d) children)"
      by (intro arg_cong[where f = sum_list] map_cong refl)
    then show ?thesis by (simp add: count_list_concat comp_def)
  qed
  have sl: "\<not> special CHR ''/''" by (simp add: special_def)
  show ?case
    unfolding render_node delimiters_node
    using count_plain[OF t assms(1)] count_attrs_string[OF a assms, of builtin] inner assms(1) sl
    by (auto simp: special_def)
qed

lemma amp_ok_attr_markup:
  "list_all (\<lambda>c. \<not> special c) k \<Longrightarrow> amp_ok (attr_markup builtin (k, v))"
proof -
  assume p: "list_all (\<lambda>c. \<not> special c) k"
  have e: "amp_ok (concat (map esc_char (py_str builtin v)))" using amp_ok_esc by (simp add: esc_chars)
  have "amp_ok (k @ ([CHR ''='', CHR 0x22] @ (concat (map esc_char (py_str builtin v)) @ [CHR 0x22])))"
    by (intro amp_ok_append amp_ok_plain[OF p] e) simp_all
  with amp_ok_plain[OF p] show ?thesis by (simp add: attr_markup_def)
qed

lemma amp_ok_attrs_string:
  assumes "list_all (\<lambda>(k, v). list_all (\<lambda>c. \<not> special c) k) (emitted props)"
  shows "amp_ok (attrs_string builtin props)"
proof -
  have "list_all (\<lambda>(k, v). list_all (\<lambda>c. \<not> special c) k) kvs \<Longrightarrow>
        list_all amp_ok (map (attr_markup builtin) kvs)" for kvs
    by (induction kvs) (auto intro: amp_ok_attr_markup)
  from amp_ok_join[OF this[OF assms]] show ?thesis by (simp add: attrs_string_def)
qed

lemma amp_ok_render: "plain_names n \<Longrightarrow> amp_ok (render_to_string builtin n)"
proof (induction n)
  case (Str s)
  then show ?case by (simp add: amp_ok_esc)
next
  case (VNode tag props children key el)
  from VNode.prems have t: "list_all (\<lambda>c. \<not> special c) tag"
    and a: "list_all (\<lambda>(k, v). list_all (\<lambda>c. \<not> special c) k) (emitted props)"
    and c: "list_all plain_names children" by simp_all
  have inner: "amp_ok (concat (map (render_to_string builtin) children))"
    using VNode.IH c by (intro amp_ok_concat) (simp add: list_all_iff)
  show ?case unfolding render_node
    by (intro amp_ok_append amp_ok_plain[OF t] amp_ok_attrs_string[OF a] inner) simp_all
qed

text \<open>
  C1. A text input is rendered as that text with each of the five characters replaced by
  its entity and every other character kept. In the rendering of a tree, every text child
  at any depth occurs in that escaped form, and every attribute that is emitted with a
  value occurs as \<open>name="value"\<close> with the value (its string form) escaped in the same
  way. When the tags and the names of the emitted attributes hold none of the five
  characters, the only \<open><\<close> and \<open>>\<close> of the output are the two of each element, the only
  double quotes are the two around each attribute value, no single quote occurs, and
  every ampersand starts an entity: no text and no attribute value contributes a
  character of markup, however nested or adversarial.
\<close>

theorem render_to_string_escapes:
  "render_to_string builtin (Str s) = concat (map esc_char s) \<and>
   (\<forall>t\<in>set (texts n). sublist (concat (map esc_char t)) (render_to_string builtin n)) \<and>
   (\<forall>(k, v)\<in>set (attr_values n).
      sublist (k @ [CHR ''='', CHR 0x22] @ concat (map esc_char (py_str builtin v)) @ [CHR 0x22])
        (render_to_string builtin n)) \<and>
   (plain_names n \<longrightarrow>
      count_list (render_to_string builtin n) CHR ''<'' = 2 * elements n \<and>
      count_list (render_to_string builtin n) CHR ''>'' = 2 * elements n \<and>
      count_list (render_to_string builtin n) CHR 0x22 = 2 * length (attr_values n) \<and>
      count_list (render_to_string builtin n) CHR 0x27 = 0 \<and>
      amp_ok (render_to_string builtin n))"
proof (intro conjI ballI impI)
  show "render_to_string builtin (Str s) = concat (map esc_char s)"
    by (simp add: esc_chars)
next
  fix t assume "t \<in> set (texts n)"
  then show "sublist (concat (map esc_char t)) (render_to_string builtin n)"
    by (rule texts_sublist)
next
  fix kv assume kv: "kv \<in> set (attr_values n)"
  have v: "snd kv \<noteq> PBool True" if "kv \<in> set (attr_values m)" for m
    using that by (induction m) (auto simp: valued_def)
  from attr_values_sublist[OF kv, of builtin] v[OF kv]
  show "case kv of (k, v) \<Rightarrow>
      sublist (k @ [CHR ''='', CHR 0x22] @ concat (map esc_char (py_str builtin v)) @ [CHR 0x22])
        (render_to_string builtin n)"
    by (cases kv) (simp add: attr_markup_def)
next
  assume p: "plain_names n"
  have lt: "special CHR ''<''" "CHR ''<'' \<noteq> CHR ''&''" by (simp_all add: special_def)
  from count_render[OF lt p, of builtin]
  show "count_list (render_to_string builtin n) CHR ''<'' = 2 * elements n"
    by (simp add: delimiters_def)
  have gt: "special CHR ''>''" "CHR ''>'' \<noteq> CHR ''&''" by (simp_all add: special_def)
  from count_render[OF gt p, of builtin]
  show "count_list (render_to_string builtin n) CHR ''>'' = 2 * elements n"
    by (simp add: delimiters_def)
  have dq: "special (CHR 0x22)" "CHR 0x22 \<noteq> CHR ''&''" by (simp_all add: special_def)
  from count_render[OF dq p, of builtin]
  show "count_list (render_to_string builtin n) CHR 0x22 = 2 * length (attr_values n)"
    by (simp add: delimiters_def)
  have sq: "special (CHR 0x27)" "CHR 0x27 \<noteq> CHR ''&''" by (simp_all add: special_def)
  from count_render[OF sq p, of builtin]
  show "count_list (render_to_string builtin n) CHR 0x27 = 0"
    by (simp add: delimiters_def)
  from amp_ok_render[OF p] show "amp_ok (render_to_string builtin n)" .
qed

theorem render_to_string_escapes_witness:
  "plain_names example_page \<and>
   sublist ''&lt;script&gt;alert(1)&lt;/script&gt;'' (render_to_string (\<lambda>v. []) example_page) \<and>
   sublist ''x &amp; y'' (render_to_string (\<lambda>v. []) example_page) \<and>
   sublist (''title='' @ [CHR 0x22] @ ''a&quot;&gt;b'' @ [CHR 0x22]) (render_to_string (\<lambda>v. []) example_page) \<and>
   count_list (render_to_string (\<lambda>v. []) example_page) CHR ''<'' = 4 \<and>
   count_list (render_to_string (\<lambda>v. []) example_page) CHR ''>'' = 4 \<and>
   count_list (render_to_string (\<lambda>v. []) example_page) CHR 0x22 = 4 \<and>
   count_list (render_to_string (\<lambda>v. []) example_page) CHR 0x27 = 0"
proof -
  have p: "plain_names example_page"
    by (simp add: example_page_def h_def emitted_def special_def)
  have t: "texts example_page = [''<script>alert(1)</script>'', ''x & y'']"
    by (simp add: example_page_def h_def)
  have a: "attr_values example_page =
      [(''title'', PStr [CHR ''a'', CHR 0x22, CHR ''>'', CHR ''b'']), (''href'', PStr ''javascript:alert(1)'')]"
    by (simp add: example_page_def h_def valued_def emitted_def)
  have e: "elements example_page = 2"
    by (simp add: example_page_def h_def)
  from render_to_string_escapes[of "\<lambda>v. []" "[]" example_page] p
  show ?thesis
    unfolding t a e by (simp add: esc_char_def py_str_def)
qed

lemma emitted_idem: "emitted (emitted props) = emitted props"
  by (simp add: emitted_def)

text \<open>
  C9. The attribute parts of the opening tag are, in insertion order, the markup of the
  attributes that are not event-prefixed and whose value is neither False nor None: an
  attribute whose value is True is the bare name, any other is \<open>name="value"\<close>. An
  event-prefixed attribute, whatever its value, and an attribute whose value is False or
  None leave no trace: the markup is the same as that of the node without them. An
  attribute with the value True and no event prefix is one of the parts.
\<close>

theorem render_attributes:
  "attr_parts_loop builtin props [] = map (attr_markup builtin) (emitted props) \<and>
   attr_markup builtin (k, PBool True) = k \<and>
   emitted props =
     filter (\<lambda>(k, v). \<not> prefix ''on_'' k \<and> v \<noteq> PBool False \<and> v \<noteq> PNone) props \<and>
   render_to_string builtin (VNode tag props children key el) =
     ''<'' @ tag @
     (if emitted props = [] then []
      else '' '' @ join '' '' (map (attr_markup builtin) (emitted props))) @
     ''>'' @ concat (map (render_to_string builtin) children) @ ''</'' @ tag @ ''>'' \<and>
   render_to_string builtin (VNode tag props children key el) =
     render_to_string builtin (VNode tag (emitted props) children key el) \<and>
   ((k, PBool True) \<in> set props \<and> \<not> prefix ''on_'' k \<longrightarrow>
      k \<in> set (attr_parts_loop builtin props []))"
proof (intro conjI impI)
  show "attr_parts_loop builtin props [] = map (attr_markup builtin) (emitted props)"
    by (simp add: attr_parts_loop_eq)
  show "attr_markup builtin (k, PBool True) = k"
    by (simp add: attr_markup_def)
  show "emitted props =
     filter (\<lambda>(k, v). \<not> prefix ''on_'' k \<and> v \<noteq> PBool False \<and> v \<noteq> PNone) props"
    by (simp add: emitted_def)
  show "render_to_string builtin (VNode tag props children key el) =
     ''<'' @ tag @
     (if emitted props = [] then []
      else '' '' @ join '' '' (map (attr_markup builtin) (emitted props))) @
     ''>'' @ concat (map (render_to_string builtin) children) @ ''</'' @ tag @ ''>''"
    unfolding render_node attrs_string_def by (simp del: render_to_string.simps)
  show "render_to_string builtin (VNode tag props children key el) =
     render_to_string builtin (VNode tag (emitted props) children key el)"
    by (simp only: render_node attrs_string_def emitted_idem)
next
  assume "(k, PBool True) \<in> set props \<and> \<not> prefix ''on_'' k"
  then have "(k, PBool True) \<in> set (emitted props)" by (simp add: emitted_def)
  then have "attr_markup builtin (k, PBool True) \<in> set (map (attr_markup builtin) (emitted props))"
    by simp
  then show "k \<in> set (attr_parts_loop builtin props [])"
    by (simp add: attr_parts_loop_eq attr_markup_def)
qed

theorem render_attributes_witness:
  "(''disabled'', PBool True) \<in> set [(''on_click'', PBool True), (''disabled'', PBool True),
       (''hidden'', PBool False), (''data'', PNone), (''id'', PStr ''a'')] \<and>
   \<not> prefix ''on_'' ''disabled'' \<and>
   ''disabled'' \<in> set (attr_parts_loop (\<lambda>v. [])
       [(''on_click'', PBool True), (''disabled'', PBool True),
        (''hidden'', PBool False), (''data'', PNone), (''id'', PStr ''a'')] []) \<and>
   render_to_string (\<lambda>v. [])
     (VNode ''input'' [(''on_click'', PBool True), (''disabled'', PBool True),
        (''hidden'', PBool False), (''data'', PNone), (''id'', PStr ''a'')] [] None None) =
     ''<input disabled id='' @ [CHR 0x22] @ ''a'' @ [CHR 0x22] @ ''></input>''"
proof -
  let ?props = "[(''on_click'', PBool True), (''disabled'', PBool True),
        (''hidden'', PBool False), (''data'', PNone), (''id'', PStr ''a'')]"
  have m: "(''disabled'', PBool True) \<in> set ?props" by simp
  have n: "\<not> prefix ''on_'' ''disabled''" by simp
  have e: "emitted ?props = [(''disabled'', PBool True), (''id'', PStr ''a'')]"
    by (simp add: emitted_def)
  from render_attributes[of "\<lambda>v. []" ?props "''disabled''" "''input''" "[]" None None] m n
  show ?thesis
    unfolding e by (simp add: attr_markup_def esc_char_def py_str_def)
qed

section \<open>Properties of the client runtime\<close>

lemma step_refl: "step R Q d d"
  by (simp add: step_def)

lemma step_trans:
  assumes "step R Q d d1" "step R' Q' d1 d2"
    and "\<forall>x\<in>R'. x \<in> R \<or> next_ref d \<le> x" "\<forall>x\<in>Q'. x \<in> Q \<or> next_ref d \<le> x"
  shows "step R Q d d2"
  unfolding step_def
proof (intro conjI allI impI)
  show "next_ref d \<le> next_ref d2" using assms(1,2) by (simp add: step_def)
next
  fix e q assume a: "e < next_ref d \<and> e \<notin> R" and b: "e \<in> set (childNodes (nodes d2 q))"
  from a assms(1,3) have e1: "e < next_ref d1 \<and> e \<notin> R'" by (auto simp: step_def)
  with assms(2) b have "e \<in> set (childNodes (nodes d1 q))" by (simp add: step_def)
  with assms(1) a show "e \<in> set (childNodes (nodes d q))" by (simp add: step_def)
next
  fix e q assume a: "e < next_ref d \<and> e \<notin> R"
    and b: "q < next_ref d \<and> q \<notin> Q \<and> e \<in> set (childNodes (nodes d q))"
  from a assms(1,3) have e1: "e < next_ref d1 \<and> e \<notin> R'" by (auto simp: step_def)
  from b assms(1,4) have q1: "q < next_ref d1 \<and> q \<notin> Q'" by (auto simp: step_def)
  from assms(1) a b have "e \<in> set (childNodes (nodes d1 q))" by (simp add: step_def)
  with assms(2) e1 q1 show "e \<in> set (childNodes (nodes d2 q))" by (simp add: step_def)
qed

lemma step_mono: "step R Q d d' \<Longrightarrow> R \<subseteq> R' \<Longrightarrow> Q \<subseteq> Q' \<Longrightarrow> step R' Q' d d'"
  unfolding step_def by blast

lemma step_next: "step R Q d d' \<Longrightarrow> next_ref d \<le> next_ref d'"
  by (simp add: step_def)

lemma step_detach: "step {x} {} d (detach x d)"
  by (simp add: step_def detach_def)

lemma step_update_node:
  "(\<And>e. childNodes (f e) = childNodes e) \<Longrightarrow> step {} {} d (update_node r f d)"
  by (simp add: step_def update_node_def)

lemma step_appendChild: "appendChild p c d = Inr d' \<Longrightarrow> step (set_option c) {} d d'"
  by (cases p; cases c) (auto simp: step_def detach_def update_node_def split: if_splits)

lemma set_insert_before:
  "set (takeWhile P xs @ n # dropWhile P xs) = insert n (set xs)"
proof -
  have "set (takeWhile P xs) \<union> set (dropWhile P xs) = set xs"
    by (simp only: set_append[symmetric] takeWhile_dropWhile_id)
  then show ?thesis by auto
qed

lemma step_insertBefore:
  assumes i: "insertBefore p n r d = Inr d'"
  shows "step (set_option n) {} d d'"
proof (cases n)
  case None
  with i show ?thesis by (simp add: insertBefore_def)
next
  case (Some a)
  show ?thesis
  proof (cases "a = r")
    case True
    with i Some show ?thesis by (auto simp: insertBefore_def step_refl split: if_splits)
  next
    case False
    with i Some have d': "d' = update_node p
                 (\<lambda>e. e\<lparr>childNodes := takeWhile (\<lambda>c. c \<noteq> r) (childNodes e) @ [a] @
                                        dropWhile (\<lambda>c. c \<noteq> r) (childNodes e)\<rparr>)
                 (detach a d)"
      by (auto simp: insertBefore_def split: if_splits)
    have "childNodes (nodes d' q) =
            (if q = p then takeWhile (\<lambda>c. c \<noteq> r) (removeAll a (childNodes (nodes d q))) @ a #
                           dropWhile (\<lambda>c. c \<noteq> r) (removeAll a (childNodes (nodes d q)))
             else removeAll a (childNodes (nodes d q)))" for q
      by (simp add: d' update_node_def detach_def)
    then have "set (childNodes (nodes d' q)) - {a} = set (childNodes (nodes d q)) - {a}" for q
      by (auto simp: set_insert_before simp del: set_append)
    moreover have "next_ref d' = next_ref d" by (simp add: d' update_node_def detach_def)
    ultimately show ?thesis unfolding step_def Some by (simp; blast)
  qed
qed

lemma step_removeChild: "step {} {p} d (removeChild p c d)"
  by (simp add: step_def removeChild_def update_node_def)

lemma step_createElement: "createElement t d = (x, d') \<Longrightarrow> step {} {} d d' \<and> x = next_ref d \<and> next_ref d' = Suc x"
  by (auto simp: createElement_def step_def new_element_def split: if_splits)

lemma step_createTextNode: "createTextNode t d = (x, d') \<Longrightarrow> step {} {} d d' \<and> x = next_ref d \<and> next_ref d' = Suc x"
  by (auto simp: createTextNode_def step_def new_element_def split: if_splits)

lemma step_set_className: "set_className el v d = Inr d' \<Longrightarrow> step {} {} d d'"
  by (cases el) (auto intro: step_update_node)

lemma step_set_style: "set_style el k v d = Inr d' \<Longrightarrow> step {} {} d d'"
  by (cases el) (auto intro: step_update_node)

lemma step_setAttribute: "setAttribute el k v d = Inr d' \<Longrightarrow> step {} {} d d'"
  by (cases el) (auto intro: step_update_node)

lemma step_removeAttribute: "removeAttribute el k d = Inr d' \<Longrightarrow> step {} {} d d'"
  by (cases el) (auto intro: step_update_node)

lemma step_addEventListener: "addEventListener el k v d = Inr d' \<Longrightarrow> step {} {} d d'"
  by (cases el) (auto intro: step_update_node)

lemma step_set_textContent: "step {} {} d (set_textContent r s d)"
  by (auto simp: set_textContent_def intro: step_update_node)

lemma step_trans0: "step {} {} d d1 \<Longrightarrow> step {} {} d1 d2 \<Longrightarrow> step {} {} d d2"
  by (erule step_trans) auto

lemma step_set_styles: "set_styles el kvs d = Inr d' \<Longrightarrow> step {} {} d d'"
proof (induction kvs arbitrary: d)
  case Nil
  then show ?case by (simp add: step_refl)
next
  case (Cons kv kvs)
  obtain k v where kv: "kv = (k, v)" by (cases kv)
  from Cons.prems kv obtain d1 where a: "set_style el k v d = Inr d1" and b: "set_styles el kvs d1 = Inr d'"
    by (auto split: sum.splits)
  from step_set_style[OF a] Cons.IH[OF b] show ?case by (rule step_trans0)
qed

lemma step_clear_styles: "clear_styles el ks d = Inr d' \<Longrightarrow> step {} {} d d'"
proof (induction ks arbitrary: d)
  case Nil
  then show ?case by (simp add: step_refl)
next
  case (Cons k ks)
  from Cons.prems obtain d1 where a: "set_style el k [] d = Inr d1" and b: "clear_styles el ks d1 = Inr d'"
    by (auto split: sum.splits)
  from step_set_style[OF a] Cons.IH[OF b] show ?case by (rule step_trans0)
qed

lemma els_VNode: "els (VNode tag props children key el) = set_option el \<union> els_list children"
  by (simp add: els_list_def)

lemma els_list_Cons: "els_list (c # cs) = els c \<union> els_list cs"
  by (simp add: els_list_def)

lemma els_list_Nil: "els_list [] = {}"
  by (simp add: els_list_def)

lemma step_fresh:
  "step R Q d d1 \<Longrightarrow> step R' Q' d1 d2 \<Longrightarrow> \<forall>x\<in>R'. next_ref d \<le> x \<Longrightarrow> \<forall>x\<in>Q'. next_ref d \<le> x \<Longrightarrow>
   step R Q d d2"
  by (erule (1) step_trans) auto

lemma step_mount_props: "mount_props builtin el props d = Inr d' \<Longrightarrow> step {} {} d d'"
proof (induction props arbitrary: d)
  case Nil
  then show ?case by (simp add: step_refl)
next
  case (Cons kv props)
  obtain k v where kv: "kv = (k, v)" by (cases kv)
  from Cons.prems kv obtain d1 where
    a: "(if prefix ''on_'' k \<and> callable v
            then addEventListener el (drop (length ''on_'') k) v d
            else if k = ''class'' then set_className el v d
            else if k = ''style'' \<and> is_dict v then set_styles el (items v) d
            else setAttribute el k (py_str builtin v) d) = Inr d1"
    and b: "mount_props builtin el props d1 = Inr d'"
    by (auto split: sum.splits)
  from a have "step {} {} d d1"
    by (auto split: if_splits
        dest: step_addEventListener step_set_className step_set_styles step_setAttribute)
  with Cons.IH[OF b] show ?case by (rule step_trans0[rotated])
qed

lemma mount_props_total: "\<exists>d'. mount_props builtin (Some el) props d = Inr d'"
proof (induction props arbitrary: d)
  case Nil
  then show ?case by simp
next
  case (Cons kv props)
  obtain k v where kv: "kv = (k, v)" by (cases kv)
  have s: "\<exists>d'. set_styles (Some el) m d = Inr d'" for m d
    by (induction m arbitrary: d) auto
  have "\<exists>d1. (if prefix ''on_'' k \<and> callable v
            then addEventListener (Some el) (drop (length ''on_'') k) v d
            else if k = ''class'' then set_className (Some el) v d
            else if k = ''style'' \<and> is_dict v then set_styles (Some el) (items v) d
            else setAttribute (Some el) k (py_str builtin v) d) = Inr d1"
    using s by auto
  then obtain d1 where "(if prefix ''on_'' k \<and> callable v
            then addEventListener (Some el) (drop (length ''on_'') k) v d
            else if k = ''class'' then set_className (Some el) v d
            else if k = ''style'' \<and> is_dict v then set_styles (Some el) (items v) d
            else setAttribute (Some el) k (py_str builtin v) d) = Inr d1" ..
  with Cons.IH[of d1] kv show ?case by (auto simp del: addEventListener.simps set_className.simps setAttribute.simps)
qed

lemma mount_step:
  "mount builtin parent n d = Inr (n', d') \<Longrightarrow>
     step {} {} d d' \<and> (\<forall>x\<in>els n'. next_ref d \<le> x \<and> x < next_ref d') \<and>
     (case n of Str s \<Rightarrow> n' = Str s
      | VNode tag props children key el \<Rightarrow>
          \<exists>children'. n' = VNode tag props children' key (Some (next_ref d)) \<and>
                         length children' = length children)"
  "mount_each builtin parent ns d = Inr (ns', d') \<Longrightarrow>
     step {} {} d d' \<and> (\<forall>x\<in>els_list ns'. next_ref d \<le> x \<and> x < next_ref d') \<and>
     length ns' = length ns"
proof (induction builtin parent n d and builtin parent ns d arbitrary: n' d' and ns' d'
       rule: mount_mount_each.induct)
  case (1 builtin parent vnode d)
  obtain x d1 where c: "createTextNode vnode d = (x, d1)" by (cases "createTextNode vnode d")
  with "1.prems" obtain d2 where a: "appendChild parent (Some x) d1 = Inr d2" and n': "n' = Str vnode" and d': "d' = d2"
    by (auto split: sum.splits)
  note c' = step_createTextNode[OF c]
  from step_appendChild[OF a] have s2: "step {x} {} d1 d2" by simp
  have "step {} {} d d2" using c' s2 by (intro step_fresh[of "{}" "{}" d d1 "{x}" "{}" d2]) auto
  then show ?case using n' d' by simp
next
  case (2 builtin parent tag props children key el0 d)
  obtain x d1 where c: "createElement tag d = (x, d1)" by (cases "createElement tag d")
  with "2.prems" obtain d2 children' d3 d4 where
    mp: "mount_props builtin (Some x) props d1 = Inr d2" and
    me: "mount_each builtin (Some x) children d2 = Inr (children', d3)" and
    a: "appendChild parent (Some x) d3 = Inr d4" and
    n': "n' = VNode tag props children' key (Some x)" and d': "d' = d4"
    by (auto split: sum.splits prod.splits)
  note c' = step_createElement[OF c]
  note s2 = step_mount_props[OF mp]
  from "2.IH"[OF c[symmetric] mp me] have s3: "step {} {} d2 d3"
    and f3: "\<forall>x\<in>els_list children'. next_ref d2 \<le> x \<and> x < next_ref d3"
    and l3: "length children' = length children" by simp_all
  from step_appendChild[OF a] have s4: "step {x} {} d3 d4" by simp
  have s13: "step {} {} d d3" using c' s2 s3 by (blast intro: step_trans0)
  have s: "step {} {} d d4" using s13 s4 c' by (intro step_fresh[of "{}" "{}" d d3 "{x}" "{}" d4]) auto
  have n12: "next_ref d \<le> next_ref d2" "next_ref d2 \<le> next_ref d3" "next_ref d3 \<le> next_ref d4"
    "Suc x \<le> next_ref d2"
    using c' s2 s3 s4 by (auto dest: step_next)
  have f3': "next_ref d \<le> y \<and> y < next_ref d4" if "y \<in> els_list children'" for y
    using f3 n12 that by force
  have "\<forall>y\<in>els n'. next_ref d \<le> y \<and> y < next_ref d'"
    using f3' n12 c' by (auto simp: n' d' els_VNode simp del: els.simps)
  with s l3 c' show ?case by (simp add: n' d')
next
  case (3 builtin parent d)
  then show ?case by (simp add: step_refl els_list_def)
next
  case (4 builtin parent child rest d)
  from "4.prems" obtain child' d1 rest' d2 where
    m: "mount builtin parent child d = Inr (child', d1)" and
    r: "mount_each builtin parent rest d1 = Inr (rest', d2)" and
    ns': "ns' = child' # rest'" and d': "d' = d2"
    by (auto split: sum.splits prod.splits)
  from "4.IH"(1)[OF m] have s1: "step {} {} d d1"
    and f1: "\<forall>x\<in>els child'. next_ref d \<le> x \<and> x < next_ref d1" by simp_all
  from "4.IH"(2)[OF m _ r] have s2: "step {} {} d1 d2"
    and f2: "\<forall>x\<in>els_list rest'. next_ref d1 \<le> x \<and> x < next_ref d2"
    and l2: "length rest' = length rest" by simp_all
  have n: "next_ref d \<le> next_ref d1" "next_ref d1 \<le> next_ref d2" using s1 s2 by (auto dest: step_next)
  have "\<forall>x\<in>els_list ns'. next_ref d \<le> x \<and> x < next_ref d'"
    using f1 f2 n by (fastforce simp: ns' d' els_list_Cons)
  with step_trans0[OF s1 s2] l2 show ?case by (simp add: ns' d')
qed

lemma step_remove_node:
  "remove_node parent v index d = Inr d' \<Longrightarrow> step (set_option (el_of v)) (set_option parent) d d'"
proof (cases v)
  case (Str s)
  assume "remove_node parent v index d = Inr d'"
  with Str show ?thesis
    by (cases parent)
       (auto split: if_splits intro: step_refl step_mono[OF step_removeChild])
next
  case (VNode tag props children key el)
  assume "remove_node parent v index d = Inr d'"
  with VNode show ?thesis
    by (cases el) (auto intro: step_refl step_mono[OF step_detach])
qed

lemma step_move_node:
  "move_node parent element i d = Inr d' \<Longrightarrow> step (set_option element) {} d d'"
  by (cases parent)
     (auto simp: move_node_def Let_def split: if_splits dest: step_appendChild step_insertBefore)

lemma step_remove_old_props:
  "remove_old_props element old_props new_props d = Inr d' \<Longrightarrow> step {} {} d d'"
proof (induction old_props arbitrary: d)
  case Nil
  then show ?case by (simp add: step_refl)
next
  case (Cons kv old_props)
  obtain k v where kv: "kv = (k, v)" by (cases kv)
  from Cons.prems kv obtain d1 where
    a: "(if k \<notin> fst ` set new_props
            then (if prefix ''on_'' k then Inr d
                  else if k = ''class'' then set_className element (PStr []) d
                  else if k = ''style''
                    then clear_styles element (map fst (if is_dict v then items v else [])) d
                  else removeAttribute element k d)
            else Inr d) = Inr d1"
    and b: "remove_old_props element old_props new_props d1 = Inr d'"
    by (auto split: sum.splits)
  from a have "step {} {} d d1"
    by (auto split: if_splits intro: step_refl
        dest: step_set_className step_clear_styles step_removeAttribute)
  with Cons.IH[OF b] show ?case by (rule step_trans0[rotated])
qed

lemma step_update_new_props:
  "update_new_props builtin element old_props new_props d = Inr d' \<Longrightarrow> step {} {} d d'"
proof (induction new_props arbitrary: d)
  case Nil
  then show ?case by (simp add: step_refl)
next
  case (Cons kv new_props)
  obtain k v where kv: "kv = (k, v)" by (cases kv)
  from Cons.prems kv have "\<exists>d1. step {} {} d d1 \<and>
      update_new_props builtin element old_props new_props d1 = Inr d'"
    by (auto simp: Let_def split: sum.splits if_splits intro: step_refl
        dest: step_set_className step_setAttribute step_addEventListener
              step_trans0[OF step_clear_styles step_set_styles])
  then obtain d1 where a: "step {} {} d d1" and b: "update_new_props builtin element old_props new_props d1 = Inr d'"
    by blast
  from a Cons.IH[OF b] show ?case by (rule step_trans0)
qed

lemma step_patch_props:
  "patch_props builtin element old_props new_props d = Inr d' \<Longrightarrow> step {} {} d d'"
  by (auto simp: patch_props_def split: sum.splits
      dest: step_remove_old_props step_update_new_props intro: step_trans0)

lemma step_remove_extra:
  "remove_extra parent olds new_len d = Inr d' \<Longrightarrow>
   step (els_list olds) (set_option parent) d d'"
proof (induction olds arbitrary: d)
  case Nil
  then show ?case by (simp add: step_refl)
next
  case (Cons v olds)
  from Cons.prems obtain d1 where a: "remove_node parent v new_len d = Inr d1"
    and b: "remove_extra parent olds new_len d1 = Inr d'"
    by (auto split: sum.splits)
  have e: "set_option (el_of v) \<subseteq> els v" by (cases v) auto
  from step_remove_node[OF a] e have s1: "step (els_list (v # olds)) (set_option parent) d d1"
    by (auto intro: step_mono simp: els_list_Cons)
  from Cons.IH[OF b] show ?case
    by (intro step_trans[OF s1]) (auto simp: els_list_Cons)
qed

lemma step_remove_unused:
  "remove_unused parent keyed used d = Inr d' \<Longrightarrow>
   step (els_keyed keyed) (set_option parent) d d'"
proof (induction keyed arbitrary: d)
  case Nil
  then show ?case by (simp add: step_refl)
next
  case (Cons kic keyed)
  obtain k i c where kic: "kic = (k, i, c)" by (cases kic)
  have e: "set_option (el_of c) \<subseteq> els c" by (cases c) auto
  have sub: "els_keyed keyed \<subseteq> els_keyed (kic # keyed)" "els c \<subseteq> els_keyed (kic # keyed)"
    by (auto simp: els_keyed_def kic)
  show ?case
  proof (cases "k \<in> used")
    case True
    with Cons.prems kic have "remove_unused parent keyed used d = Inr d'" by simp
    from Cons.IH[OF this] sub show ?thesis by (auto intro: step_mono)
  next
    case False
    with Cons.prems kic obtain d1 where a: "remove_node parent c 0 d = Inr d1"
      and b: "remove_unused parent keyed used d1 = Inr d'"
      by (auto split: sum.splits)
    from step_remove_node[OF a] e sub have s1: "step (els_keyed (kic # keyed)) (set_option parent) d d1"
      by (auto intro: step_mono)
    from Cons.IH[OF b] sub show ?thesis
      by (intro step_trans[OF s1]) auto
  qed
qed

lemma step_trans_same: "step R Q d d1 \<Longrightarrow> step R Q d1 d2 \<Longrightarrow> step R Q d d2"
  by (erule (1) step_trans) auto

lemma set_dict_set: "set (dict_set keyed k v) \<subseteq> insert (k, v) (set keyed)"
  by (induction keyed) (auto split: if_splits)

lemma els_keyed_dict_set: "els_keyed (dict_set keyed k (i, c)) \<subseteq> els_keyed keyed \<union> els c"
  using set_dict_set[of keyed k "(i, c)"] by (fastforce simp: els_keyed_def)

lemma els_keyed_build: "els_keyed (build_keyed os i acc) \<subseteq> els_keyed acc \<union> els_list os"
proof (induction os arbitrary: i acc)
  case Nil
  then show ?case by simp
next
  case (Cons c os)
  show ?case
  proof (cases "truthy_key c")
    case None
    with Cons[of "Suc i" acc] show ?thesis by (auto simp: els_list_Cons)
  next
    case (Some k)
    with Cons[of "Suc i" "dict_set acc k (i, c)"] els_keyed_dict_set[of acc k i c]
    show ?thesis by (auto simp: els_list_Cons)
  qed
qed

lemma el_of_sub: "set_option (el_of v) \<subseteq> els v"
  by (cases v) auto

lemma els_list_drop: "els_list (drop n xs) \<subseteq> els_list xs"
  by (auto simp: els_list_def dest: in_set_dropD)

lemma patch_step:
  "patch builtin parent old new index d = Inr (r, d') \<Longrightarrow>
     step (els_opt old) (set_option parent \<union> els_opt old) d d' \<and>
     (\<forall>n. new = Some n \<longrightarrow>
        (\<exists>n'. r = Some n' \<and> (\<forall>x. el_of n' = Some x \<longrightarrow> x \<in> els_opt old \<or> next_ref d \<le> x)))"
  "patch_children builtin parent os ns d = Inr (ns', d') \<Longrightarrow>
     step (els_list os) (set_option parent \<union> els_list os) d d'"
  "patch_common builtin parent os ns i d = Inr (ns', d') \<Longrightarrow>
     step (els_list os) (set_option parent \<union> els_list os) d d'"
  "patch_keyed_children builtin parent os ns d = Inr (ns', d') \<Longrightarrow>
     step (els_list os) (set_option parent \<union> els_list os) d d'"
  "patch_keyed_child builtin parent keyed key n idx d = Inr (n', d') \<Longrightarrow>
     step (els_keyed keyed) (set_option parent \<union> els_keyed keyed) d d'"
  "patch_keyed_loop builtin parent keyed ns idx used d = Inr (ns', used', d') \<Longrightarrow>
     step (els_keyed keyed) (set_option parent \<union> els_keyed keyed) d d'"
proof (induction builtin parent old new index d and builtin parent os ns d
         and builtin parent os ns i d and builtin parent os ns d
         and builtin parent keyed key n idx d and builtin parent keyed ns idx used d
       arbitrary: r d' and ns' d' and ns' d' and ns' d' and n' d' and ns' used' d'
       rule: patch_patch_children_patch_common_patch_keyed_children_patch_keyed_child_patch_keyed_loop.induct)
  case (1 builtin parent new_vnode index d)
  from "1.prems" obtain n where m: "mount builtin parent new_vnode d = Inr (n, d')" and r: "r = Some n"
    by (auto split: sum.splits)
  from mount_step(1)[OF m] have s: "step {} {} d d'"
    and e: "\<forall>x\<in>els n. next_ref d \<le> x" by auto
  from e el_of_sub[of n] have "\<forall>x. el_of n = Some x \<longrightarrow> next_ref d \<le> x" by auto
  with s r show ?case by (auto intro: step_mono)
next
  case (2 builtin parent old_vnode index d)
  from "2.prems" have m: "remove_node parent old_vnode index d = Inr d'"
    by (auto split: sum.splits)
  from step_remove_node[OF m] el_of_sub[of old_vnode] show ?case
    by (auto intro: step_mono simp: els_opt_def)
next
  case (3 builtin parent index d)
  then show ?case by (simp add: step_refl)
next
  case (4 builtin parent old_vnode new_vnode index d)
  have "step {} {} d d'" using "4.prems"
    by (cases parent) (auto split: if_splits intro: step_refl step_set_textContent)
  moreover have "r = Some (Str new_vnode)" using "4.prems"
    by (cases parent) (auto split: if_splits)
  ultimately show ?case by (auto intro: step_mono)
next
  case (5 builtin parent old_vnode tag props children key el index d)
  from "5.prems" obtain d1 n where a: "remove_node parent (Str old_vnode) index d = Inr d1"
    and m: "mount builtin parent (VNode tag props children key el) d1 = Inr (n, d')" and r: "r = Some n"
    by (auto split: sum.splits simp del: remove_node.simps mount.simps)
  from step_remove_node[OF a] have s1: "step {} (set_option parent) d d1" by simp
  from mount_step(1)[OF m] have s2: "step {} {} d1 d'"
    and e: "\<forall>x\<in>els n. next_ref d1 \<le> x" by auto
  from s1 s2 have s: "step {} (set_option parent) d d'" by (rule step_trans) auto
  from e el_of_sub[of n] step_next[OF s1] have "\<forall>x. el_of n = Some x \<longrightarrow> next_ref d \<le> x" by fastforce
  with s r show ?case by (auto intro: step_mono)
next
  case (6 builtin parent tag props children key el new_vnode index d)
  let ?old = "VNode tag props children key el"
  from "6.prems" obtain d1 n where a: "remove_node parent ?old index d = Inr d1"
    and m: "mount builtin parent (Str new_vnode) d1 = Inr (n, d')" and r: "r = Some n"
    by (auto split: sum.splits simp del: remove_node.simps mount.simps)
  from step_remove_node[OF a] have s1: "step (set_option el) (set_option parent) d d1" by simp
  from mount_step(1)[OF m] have s2: "step {} {} d1 d'" and n: "n = Str new_vnode" by auto
  from s1 s2 have s: "step (set_option el) (set_option parent) d d'" by (rule step_trans) auto
  from s r n show ?case by (auto intro: step_mono simp: els_opt_def)
next
  case (7 builtin parent old_tag old_props old_children old_key old_el new_tag new_props
          new_children new_key new_el index d)
  let ?old = "VNode old_tag old_props old_children old_key old_el"
  let ?new = "VNode new_tag new_props new_children new_key new_el"
  show ?case
  proof (cases "old_tag \<noteq> new_tag")
    case True
    with "7.prems" obtain d1 n where a: "remove_node parent ?old index d = Inr d1"
      and m: "mount builtin parent ?new d1 = Inr (n, d')" and r: "r = Some n"
      by (auto split: sum.splits simp del: remove_node.simps mount.simps)
    from step_remove_node[OF a] have s1: "step (set_option old_el) (set_option parent) d d1" by simp
    from mount_step(1)[OF m] have s2: "step {} {} d1 d'"
      and e: "\<forall>x\<in>els n. next_ref d1 \<le> x" by auto
    from s1 s2 have s: "step (set_option old_el) (set_option parent) d d'" by (rule step_trans) auto
    from e el_of_sub[of n] step_next[OF s1] have "\<forall>x. el_of n = Some x \<longrightarrow> next_ref d \<le> x" by fastforce
    with s r show ?thesis by (auto intro: step_mono simp: els_opt_def)
  next
    case False
    with "7.prems" obtain d1 children' where
      pp: "patch_props builtin old_el old_props new_props d = Inr d1" and
      pc: "(if has_keys new_children
            then patch_keyed_children builtin old_el old_children new_children d1
            else patch_children builtin old_el old_children new_children d1) = Inr (children', d')" and
      r: "r = Some (VNode new_tag new_props children' new_key old_el)"
      by (auto split: sum.splits)
    note s1 = step_patch_props[OF pp]
    have s2: "step (els_list old_children) (set_option old_el \<union> els_list old_children) d1 d'"
    proof (cases "has_keys new_children")
      case True
      with pc "7.IH"(1)[OF False pp True] show ?thesis by simp
    next
      case f: False
      with pc "7.IH"(2)[OF False pp f] show ?thesis by simp
    qed
    have "step (els ?old) (els ?old) d d'"
      using step_mono[OF s1, of "els ?old" "els ?old"] step_mono[OF s2, of "els ?old" "els ?old"]
      by (auto simp: els_VNode intro: step_trans_same simp del: els.simps)
    with r show ?thesis by (auto intro: step_mono simp: els_opt_def els_VNode simp del: els.simps)
  qed
next
  case (8 builtin parent old_children new_children d)
  from "8.prems" obtain patched d1 d2 mounted where
    a: "patch_common builtin parent old_children new_children 0 d = Inr (patched, d1)" and
    b: "remove_extra parent (drop (length new_children) old_children) (length new_children) d1 = Inr d2" and
    c: "mount_each builtin parent (drop (length old_children) new_children) d2 = Inr (mounted, d')"
    by (auto simp: Let_def split: sum.splits)
  let ?R = "els_list old_children"
  let ?Q = "set_option parent \<union> els_list old_children"
  from "8.IH"[OF refl refl a] have s1: "step ?R ?Q d d1" .
  from step_remove_extra[OF b] els_list_drop[of "length new_children" old_children]
  have s2: "step ?R ?Q d1 d2" by (auto intro: step_mono)
  from mount_step(2)[OF c] have s3: "step ?R ?Q d2 d'" by (auto intro: step_mono)
  from s1 s2 s3 show ?case by (blast intro: step_trans_same)
next
  case (9 builtin parent old_child old_rest new_child new_rest i d)
  from "9.prems" obtain r d1 rest' where
    a: "patch builtin parent (Some old_child) (Some new_child) i d = Inr (r, d1)" and
    b: "patch_common builtin parent old_rest new_rest (Suc i) d1 = Inr (rest', d')"
    by (auto split: sum.splits)
  let ?R = "els_list (old_child # old_rest)"
  let ?Q = "set_option parent \<union> els_list (old_child # old_rest)"
  from "9.IH"(1)[OF a] have s1: "step ?R ?Q d d1"
    by (auto intro: step_mono simp: els_opt_def els_list_Cons)
  from "9.IH"(2)[OF a _ b] have s2: "step ?R ?Q d1 d'"
    by (auto intro: step_mono simp: els_list_Cons)
  from s1 s2 show ?case by (rule step_trans_same)
next
  case (10 builtin parent new_children i d)
  then show ?case by (simp add: step_refl)
next
  case (11 builtin parent old_child old_rest i d)
  then show ?case by (simp add: step_refl)
next
  case (12 builtin parent old_children new_children d)
  let ?keyed = "build_keyed old_children 0 []"
  from "12.prems" obtain children' used_keys d1 where
    a: "patch_keyed_loop builtin parent ?keyed new_children 0 {} d = Inr (children', used_keys, d1)" and
    b: "remove_unused parent ?keyed used_keys d1 = Inr d'"
    by (auto simp: Let_def split: sum.splits)
  have sub: "els_keyed ?keyed \<subseteq> els_list old_children"
    using els_keyed_build[of old_children 0 "[]"] by (simp add: els_keyed_def)
  let ?R = "els_list old_children"
  let ?Q = "set_option parent \<union> els_list old_children"
  from "12.IH"[OF refl a] sub have s1: "step ?R ?Q d d1" by (auto intro: step_mono)
  from step_remove_unused[OF b] sub have s2: "step ?R ?Q d1 d'" by (auto intro: step_mono)
  from s1 s2 show ?case by (rule step_trans_same)
next
  case (13 builtin parent old_keyed key new_child new_idx d)
  let ?R = "els_keyed old_keyed"
  let ?Q = "set_option parent \<union> els_keyed old_keyed"
  show ?case
  proof (cases "map_of old_keyed key")
    case None
    with "13.prems" obtain n d1 where m: "mount builtin parent new_child d = Inr (n, d1)"
      and mv: "(if new_idx < length (childNodes (nodes d1 (the parent)))
                then move_node parent (el_of n) new_idx d1 else Inr d1) = Inr d'"
      by (cases parent) (auto split: sum.splits if_splits)
    from mount_step(1)[OF m] have s1: "step {} {} d d1"
      and e: "\<forall>x\<in>els n. next_ref d \<le> x" by auto
    from mv have s2: "step (set_option (el_of n)) {} d1 d'"
      by (auto split: if_splits dest: step_move_node intro: step_refl step_mono)
    have "step {} {} d d'"
      using e el_of_sub[of n] by (intro step_fresh[OF s1 s2]) auto
    then show ?thesis by (auto intro: step_mono)
  next
    case (Some a)
    obtain old_idx old_child where a: "a = (old_idx, old_child)" by (cases a)
    from Some a have mem: "(key, old_idx, old_child) \<in> set old_keyed" by (auto dest: map_of_SomeD)
    then have sub: "els old_child \<subseteq> ?R" by (auto simp: els_keyed_def)
    from "13.prems" Some a obtain r d1 where
      p: "patch builtin parent (Some old_child) (Some new_child) new_idx d = Inr (r, d1)" and
      mv: "(if old_idx \<noteq> new_idx
            then move_node parent (el_of (after_call new_child r)) new_idx d1 else Inr d1) = Inr d'"
      by (auto split: sum.splits if_splits)
    from "13.IH"[OF Some a[symmetric] p] have
      s1: "step (els old_child) (set_option parent \<union> els old_child) d d1" and
      e: "\<exists>n'. r = Some n' \<and> (\<forall>x. el_of n' = Some x \<longrightarrow> x \<in> els old_child \<or> next_ref d \<le> x)"
      by (auto simp: els_opt_def)
    from s1 sub have s1': "step ?R ?Q d d1" by (auto intro: step_mono)
    from mv have s2: "step (set_option (el_of (after_call new_child r))) {} d1 d'"
      by (auto split: if_splits dest: step_move_node intro: step_refl step_mono)
    from e sub have "\<forall>x\<in>set_option (el_of (after_call new_child r)). x \<in> ?R \<or> next_ref d \<le> x"
      by (auto simp: after_call_def)
    with s1' s2 show ?thesis by (intro step_trans[OF s1' s2]) auto
  qed
next
  case (14 builtin parent old_keyed new_idx used_keys d)
  then show ?case by (simp add: step_refl)
next
  case (15 builtin parent old_keyed new_child rest new_idx used_keys d)
  show ?case
  proof (cases "truthy_key new_child")
    case None
    with "15.prems" obtain rest' where
      "patch_keyed_loop builtin parent old_keyed rest (Suc new_idx) used_keys d = Inr (rest', used', d')"
      by (auto split: sum.splits)
    from "15.IH"(1)[OF None this] show ?thesis .
  next
    case (Some key)
    with "15.prems" obtain n d2 rest' where
      a: "patch_keyed_child builtin parent old_keyed key new_child new_idx d = Inr (n, d2)" and
      b: "patch_keyed_loop builtin parent old_keyed rest (Suc new_idx) (insert key used_keys) d2 =
            Inr (rest', used', d')"
      by (auto split: sum.splits)
    from "15.IH"(2)[OF Some a] "15.IH"(3)[OF Some a _ b] show ?thesis by (auto intro: step_trans_same)
  qed
qed

lemma set_styles_total: "\<exists>d'. set_styles (Some el) m d = Inr d'"
  by (induction m arbitrary: d) auto

lemma clear_styles_total: "\<exists>d'. clear_styles (Some el) ks d = Inr d'"
  by (induction ks arbitrary: d) auto

lemma remove_old_props_total: "\<exists>d'. remove_old_props (Some el) old_props new_props d = Inr d'"
proof (induction old_props arbitrary: d)
  case Nil
  then show ?case by simp
next
  case (Cons kv old_props)
  obtain k v where kv: "kv = (k, v)" by (cases kv)
  have "\<exists>d1. (if k \<notin> fst ` set new_props
            then (if prefix ''on_'' k then Inr d
                  else if k = ''class'' then set_className (Some el) (PStr []) d
                  else if k = ''style''
                    then clear_styles (Some el) (map fst (if is_dict v then items v else [])) d
                  else removeAttribute (Some el) k d)
            else Inr d) = Inr d1"
    using clear_styles_total[of el _ d] by auto
  then obtain d1 where "(if k \<notin> fst ` set new_props
            then (if prefix ''on_'' k then Inr d
                  else if k = ''class'' then set_className (Some el) (PStr []) d
                  else if k = ''style''
                    then clear_styles (Some el) (map fst (if is_dict v then items v else [])) d
                  else removeAttribute (Some el) k d)
            else Inr d) = Inr d1" ..
  with Cons.IH[of d1] show ?case by (simp add: kv)
qed

lemma update_new_props_total:
  "\<exists>d'. update_new_props builtin (Some el) old_props new_props d = Inr d'"
proof (induction new_props arbitrary: d)
  case Nil
  then show ?case by simp
next
  case (Cons kv new_props)
  obtain k v where kv: "kv = (k, v)" by (cases kv)
  have nl1: "clear_styles (Some el) ks d0 \<noteq> Inl e" for ks d0 e
    using clear_styles_total[of el ks d0] by auto
  have nl2: "set_styles (Some el) m d0 \<noteq> Inl e" for m d0 e
    using set_styles_total[of el m d0] by auto
  have "\<exists>d1. (case (let old_value = dict_get old_props k
            in if py_eq old_value v then Inr d
               else if prefix ''on_'' k \<and> callable v
                 then addEventListener (Some el) (drop (length ''on_'') k) v d
               else if k = ''class'' then set_className (Some el) v d
               else if k = ''style'' \<and> is_dict v
                 then (let old_style = (case map_of old_props ''style'' of
                                          None \<Rightarrow> []
                                        | Some s \<Rightarrow> if is_dict s then items s else [])
                       in case clear_styles (Some el)
                                 (filter (\<lambda>style_key. style_key \<notin> fst ` set (items v))
                                    (map fst old_style)) d of
                            Inl e \<Rightarrow> Inl e
                          | Inr d' \<Rightarrow> set_styles (Some el) (items v) d')
               else setAttribute (Some el) k (py_str builtin v) d) of
          Inl e \<Rightarrow> Inl e
        | Inr d' \<Rightarrow> update_new_props builtin (Some el) old_props new_props d') = Inr d1"
    using Cons.IH nl1 nl2 by (auto simp: Let_def split: sum.splits)
  then show ?case by (simp add: kv)
qed

lemma patch_props_total: "\<exists>d'. patch_props builtin (Some el) old_props new_props d = Inr d'"
  using remove_old_props_total[of el old_props new_props d] update_new_props_total[of builtin el old_props new_props]
  by (auto simp: patch_props_def split: sum.splits)

lemma mount_total:
  "parent \<noteq> None \<Longrightarrow> \<exists>n' d'. mount builtin parent n d = Inr (n', d')"
  "parent \<noteq> None \<Longrightarrow> \<exists>ns' d'. mount_each builtin parent ns d = Inr (ns', d')"
proof (induction builtin parent n d and builtin parent ns d rule: mount_mount_each.induct)
  case (1 builtin parent vnode d)
  then show ?case by (auto split: prod.splits)
next
  case (2 builtin parent tag props children key el0 d)
  obtain x d1 where c: "createElement tag d = (x, d1)" by (cases "createElement tag d")
  obtain d2 where mp: "mount_props builtin (Some x) props d1 = Inr d2"
    using mount_props_total by blast
  from "2.IH"[OF c[symmetric] mp] obtain children' d3 where
    me: "mount_each builtin (Some x) children d2 = Inr (children', d3)" by auto
  from "2.prems" c mp me show ?case by auto
next
  case (3 builtin parent d)
  then show ?case by simp
next
  case (4 builtin parent child rest d)
  from "4.IH"(1)[OF "4.prems"] obtain child' d1 where
    m: "mount builtin parent child d = Inr (child', d1)" by blast
  from "4.IH"(2)[OF m _ "4.prems"] obtain rest' d2 where
    "mount_each builtin parent rest d1 = Inr (rest', d2)" by blast
  with m show ?case by simp
qed

lemma remove_node_total: "parent \<noteq> None \<Longrightarrow> \<exists>d'. remove_node parent v i d = Inr d'"
  by (cases v) (auto split: option.splits)

lemma move_node_total:
  "parent \<noteq> None \<Longrightarrow> element \<noteq> None \<Longrightarrow> \<exists>d'. move_node parent element i d = Inr d'"
  by (auto simp: move_node_def insertBefore_def Let_def)

lemma move_node_member:
  "move_node (Some p) (Some x) i d = Inr d' \<Longrightarrow> x \<in> set (childNodes (nodes d' p))"
  by (auto simp: move_node_def insertBefore_def Let_def update_node_def detach_def
      split: if_splits)

lemma remove_extra_total: "parent \<noteq> None \<Longrightarrow> \<exists>d'. remove_extra parent olds n d = Inr d'"
proof (induction olds arbitrary: d)
  case Nil
  then show ?case by simp
next
  case (Cons v olds)
  from remove_node_total[OF Cons.prems, of v n d] obtain d1 where
    a: "remove_node parent v n d = Inr d1" by blast
  with Cons.IH[OF Cons.prems, of d1] show ?case by simp
qed

lemma remove_unused_total: "parent \<noteq> None \<Longrightarrow> \<exists>d'. remove_unused parent keyed used d = Inr d'"
proof (induction keyed arbitrary: d)
  case Nil
  then show ?case by simp
next
  case (Cons kic keyed)
  obtain k i c where kic: "kic = (k, i, c)" by (cases kic)
  from remove_node_total[OF Cons.prems, of c 0 d] obtain d1 where
    a: "remove_node parent c 0 d = Inr d1" by blast
  with Cons.IH[OF Cons.prems, of d1] Cons.IH[OF Cons.prems, of d] show ?case by (simp add: kic)
qed

lemma mounted_keyed_dict_set:
  "mounted_keyed keyed \<Longrightarrow> mounted c \<Longrightarrow> mounted_keyed (dict_set keyed k (i, c))"
  by (induction keyed) (auto simp: mounted_keyed_def)

lemma mounted_keyed_build:
  "list_all mounted os \<Longrightarrow> mounted_keyed acc \<Longrightarrow> mounted_keyed (build_keyed os i acc)"
proof (induction os arbitrary: i acc)
  case Nil
  then show ?case by simp
next
  case (Cons c os)
  then show ?case by (cases "truthy_key c") (auto intro: mounted_keyed_dict_set)
qed

lemma mount_el:
  "mount builtin parent (VNode tag props children key el) d = Inr (n, d') \<Longrightarrow> el_of n = Some (next_ref d)"
  by (drule mount_step(1)) auto

lemma patch_total:
  "parent \<noteq> None \<Longrightarrow> (\<forall>ov. old = Some ov \<longrightarrow> mounted ov) \<Longrightarrow>
     \<exists>r d'. patch builtin parent old new index d = Inr (r, d') \<and>
       (\<forall>t p c k e. new = Some (VNode t p c k e) \<longrightarrow> (\<exists>n'. r = Some n' \<and> el_of n' \<noteq> None))"
  "parent \<noteq> None \<Longrightarrow> list_all mounted os \<Longrightarrow>
     \<exists>ns' d'. patch_children builtin parent os ns d = Inr (ns', d')"
  "parent \<noteq> None \<Longrightarrow> list_all mounted os \<Longrightarrow>
     \<exists>ns' d'. patch_common builtin parent os ns i d = Inr (ns', d')"
  "parent \<noteq> None \<Longrightarrow> list_all mounted os \<Longrightarrow>
     \<exists>ns' d'. patch_keyed_children builtin parent os ns d = Inr (ns', d')"
  "parent \<noteq> None \<Longrightarrow> mounted_keyed keyed \<Longrightarrow> truthy_key n = Some key \<Longrightarrow>
     \<exists>n' d'. patch_keyed_child builtin parent keyed key n idx d = Inr (n', d')"
  "parent \<noteq> None \<Longrightarrow> mounted_keyed keyed \<Longrightarrow>
     \<exists>ns' used' d'. patch_keyed_loop builtin parent keyed ns idx used d = Inr (ns', used', d')"
proof (induction builtin parent old new index d and builtin parent os ns d
         and builtin parent os ns i d and builtin parent os ns d
         and builtin parent keyed key n idx d and builtin parent keyed ns idx used d
       rule: patch_patch_children_patch_common_patch_keyed_children_patch_keyed_child_patch_keyed_loop.induct)
  case (1 builtin parent new_vnode index d)
  from mount_total(1)[OF "1.prems"(1), of builtin new_vnode d] obtain n d' where
    m: "mount builtin parent new_vnode d = Inr (n, d')" by blast
  then show ?case by (auto dest: mount_el)
next
  case (2 builtin parent old_vnode index d)
  from remove_node_total[OF "2.prems"(1), of old_vnode index d] show ?case by auto
next
  case (3 builtin parent index d)
  then show ?case by simp
next
  case (4 builtin parent old_vnode new_vnode index d)
  then show ?case by (cases parent) auto
next
  case (5 builtin parent old_vnode tag props children key el index d)
  from remove_node_total[OF "5.prems"(1), of "Str old_vnode" index d] obtain d1 where
    a: "remove_node parent (Str old_vnode) index d = Inr d1" by blast
  from mount_total(1)[OF "5.prems"(1), of builtin "VNode tag props children key el" d1] obtain n d' where
    m: "mount builtin parent (VNode tag props children key el) d1 = Inr (n, d')" by blast
  from a m mount_el[OF m] show ?case by (simp del: remove_node.simps mount.simps)
next
  case (6 builtin parent tag props children key el new_vnode index d)
  from remove_node_total[OF "6.prems"(1), of "VNode tag props children key el" index d] obtain d1 where
    a: "remove_node parent (VNode tag props children key el) index d = Inr d1" by blast
  from mount_total(1)[OF "6.prems"(1), of builtin "Str new_vnode" d1] obtain n d' where
    m: "mount builtin parent (Str new_vnode) d1 = Inr (n, d')" by blast
  from a m show ?case by (simp del: remove_node.simps mount.simps)
next
  case (7 builtin parent old_tag old_props old_children old_key old_el new_tag new_props
          new_children new_key new_el index d)
  let ?old = "VNode old_tag old_props old_children old_key old_el"
  let ?new = "VNode new_tag new_props new_children new_key new_el"
  show ?case
  proof (cases "old_tag \<noteq> new_tag")
    case True
    from remove_node_total[OF "7.prems"(1), of ?old index d] obtain d1 where
      a: "remove_node parent ?old index d = Inr d1" by blast
    from mount_total(1)[OF "7.prems"(1), of builtin ?new d1] obtain n d' where
      m: "mount builtin parent ?new d1 = Inr (n, d')" by blast
    from True a m mount_el[OF m] show ?thesis by (simp del: remove_node.simps mount.simps)
  next
    case False
    from "7.prems"(2) obtain oe where oe: "old_el = Some oe" and mc: "list_all mounted old_children"
      by auto
    from patch_props_total[of builtin oe old_props new_props d] oe obtain d1 where
      pp: "patch_props builtin old_el old_props new_props d = Inr d1" by auto
    have ne: "old_el \<noteq> None" using oe by simp
    have "\<exists>children' d'. (if has_keys new_children
            then patch_keyed_children builtin old_el old_children new_children d1
            else patch_children builtin old_el old_children new_children d1) = Inr (children', d')"
    proof (cases "has_keys new_children")
      case True
      with "7.IH"(1)[OF False pp True ne mc] show ?thesis by simp
    next
      case f: False
      with "7.IH"(2)[OF False pp f ne mc] show ?thesis by simp
    qed
    then obtain children' d' where c: "(if has_keys new_children
            then patch_keyed_children builtin old_el old_children new_children d1
            else patch_children builtin old_el old_children new_children d1) = Inr (children', d')"
      by blast
    from False pp c show ?thesis
      by (cases "has_keys new_children")
         (simp_all add: oe del: patch_children.simps patch_keyed_children.simps)
  qed
next
  case (8 builtin parent old_children new_children d)
  from "8.IH"[OF refl refl "8.prems"] obtain patched d1 where
    a: "patch_common builtin parent old_children new_children 0 d = Inr (patched, d1)" by blast
  from remove_extra_total[OF "8.prems"(1)] obtain d2 where
    b: "remove_extra parent (drop (length new_children) old_children) (length new_children) d1 = Inr d2"
    by blast
  from mount_total(2)[OF "8.prems"(1)] obtain mounted' d3 where
    c: "mount_each builtin parent (drop (length old_children) new_children) d2 = Inr (mounted', d3)"
    by blast
  from a b c show ?case by (simp add: Let_def)
next
  case (9 builtin parent old_child old_rest new_child new_rest i d)
  from "9.IH"(1)[OF "9.prems"(1)] "9.prems"(2) obtain r d1 where
    a: "patch builtin parent (Some old_child) (Some new_child) i d = Inr (r, d1)" by auto
  from "9.IH"(2)[OF a _ "9.prems"(1)] "9.prems"(2) obtain rest' d2 where
    b: "patch_common builtin parent old_rest new_rest (Suc i) d1 = Inr (rest', d2)" by auto
  from a b show ?case by simp
next
  case (10 builtin parent new_children i d)
  then show ?case by simp
next
  case (11 builtin parent old_child old_rest i d)
  then show ?case by simp
next
  case (12 builtin parent old_children new_children d)
  let ?keyed = "build_keyed old_children 0 []"
  have mk: "mounted_keyed ?keyed"
    using "12.prems"(2) by (intro mounted_keyed_build) (simp_all add: mounted_keyed_def)
  from "12.IH"[OF refl "12.prems"(1) mk] obtain children' used_keys d1 where
    a: "patch_keyed_loop builtin parent ?keyed new_children 0 {} d = Inr (children', used_keys, d1)"
    by blast
  from remove_unused_total[OF "12.prems"(1)] obtain d2 where
    b: "remove_unused parent ?keyed used_keys d1 = Inr d2" by blast
  from a b show ?case by (simp add: Let_def)
next
  case (13 builtin parent old_keyed key new_child new_idx d)
  from "13.prems"(3) obtain t p c k e where nc: "new_child = VNode t p c k e"
    by (cases new_child) auto
  from "13.prems"(1) obtain pr where pr: "parent = Some pr" by auto
  show ?case
  proof (cases "map_of old_keyed key")
    case None
    from mount_total(1)[OF "13.prems"(1), of builtin new_child d] obtain n d1 where
      m: "mount builtin parent new_child d = Inr (n, d1)" by blast
    from mount_el[OF m[unfolded nc]] have "el_of n \<noteq> None" by simp
    from move_node_total[OF "13.prems"(1) this, of new_idx d1] obtain d2 where
      mv: "move_node parent (el_of n) new_idx d1 = Inr d2" by blast
    from None m mv pr show ?thesis by (simp del: mount.simps)
  next
    case (Some a)
    obtain old_idx old_child where a: "a = (old_idx, old_child)" by (cases a)
    from Some a have mem: "(key, old_idx, old_child) \<in> set old_keyed" by (auto dest: map_of_SomeD)
    with "13.prems"(2) have mo: "mounted old_child" by (auto simp: mounted_keyed_def list_all_iff)
    from "13.IH"[OF Some a[symmetric] "13.prems"(1)] mo nc obtain r d1 n' where
      p: "patch builtin parent (Some old_child) (Some new_child) new_idx d = Inr (r, d1)" and
      r: "r = Some n'" "el_of n' \<noteq> None"
      by auto
    from r have "el_of (after_call new_child r) \<noteq> None" by (simp add: after_call_def)
    from move_node_total[OF "13.prems"(1) this, of new_idx d1] obtain d2 where
      mv: "move_node parent (el_of (after_call new_child r)) new_idx d1 = Inr d2" by blast
    from Some a p mv show ?thesis by simp
  qed
next
  case (14 builtin parent old_keyed new_idx used_keys d)
  then show ?case by simp
next
  case (15 builtin parent old_keyed new_child rest new_idx used_keys d)
  show ?case
  proof (cases "truthy_key new_child")
    case None
    from "15.IH"(1)[OF None "15.prems"] None show ?thesis by auto
  next
    case (Some key)
    from "15.IH"(2)[OF Some "15.prems" Some] obtain n d2 where
      a: "patch_keyed_child builtin parent old_keyed key new_child new_idx d = Inr (n, d2)" by blast
    from "15.IH"(3)[OF Some a _ "15.prems"] obtain rest' used' d3 where
      b: "patch_keyed_loop builtin parent old_keyed rest (Suc new_idx) (insert key used_keys) d2 =
            Inr (rest', used', d3)" by blast
    from Some a b show ?thesis by simp
  qed
qed

lemma next_ref_update_node: "next_ref (update_node r f d) = next_ref d"
  by (simp add: update_node_def)

lemma next_ref_detach: "next_ref (detach x d) = next_ref d"
  by (simp add: detach_def)

lemma next_ref_set_style: "set_style el k v d = Inr d' \<Longrightarrow> next_ref d' = next_ref d"
  by (cases el) (auto simp: next_ref_update_node)

lemma next_ref_set_styles: "set_styles el kvs d = Inr d' \<Longrightarrow> next_ref d' = next_ref d"
  by (induction kvs arbitrary: d) (auto split: sum.splits dest!: next_ref_set_style)

lemma next_ref_clear_styles: "clear_styles el ks d = Inr d' \<Longrightarrow> next_ref d' = next_ref d"
  by (induction ks arbitrary: d) (auto split: sum.splits dest!: next_ref_set_style)

lemma next_ref_set_className: "set_className el v d = Inr d' \<Longrightarrow> next_ref d' = next_ref d"
  by (cases el) (auto simp: next_ref_update_node)

lemma next_ref_setAttribute: "setAttribute el k v d = Inr d' \<Longrightarrow> next_ref d' = next_ref d"
  by (cases el) (auto simp: next_ref_update_node)

lemma next_ref_removeAttribute: "removeAttribute el k d = Inr d' \<Longrightarrow> next_ref d' = next_ref d"
  by (cases el) (auto simp: next_ref_update_node)

lemma next_ref_addEventListener: "addEventListener el k v d = Inr d' \<Longrightarrow> next_ref d' = next_ref d"
  by (cases el) (auto simp: next_ref_update_node)

lemma next_ref_remove_old_props:
  "remove_old_props element old_props new_props d = Inr d' \<Longrightarrow> next_ref d' = next_ref d"
proof (induction old_props arbitrary: d)
  case Nil
  then show ?case by simp
next
  case (Cons kv rest)
  obtain key old_value where kv: "kv = (key, old_value)" by (cases kv)
  from Cons.prems obtain d1 where
    a: "(if key \<notin> fst ` set new_props
            then (if prefix ''on_'' key then Inr d
                  else if key = ''class'' then set_className element (PStr []) d
                  else if key = ''style''
                    then clear_styles element (map fst (if is_dict old_value then items old_value else [])) d
                  else removeAttribute element key d)
            else Inr d) = Inr d1" and
    b: "remove_old_props element rest new_props d1 = Inr d'"
    unfolding kv by (auto split: sum.splits)
  from a have "next_ref d1 = next_ref d"
    by (auto split: if_splits
        dest: next_ref_set_className next_ref_clear_styles next_ref_removeAttribute)
  with Cons.IH[OF b] show ?case by simp
qed

lemma next_ref_clear_set_styles:
  "clear_styles el ks d = Inr d1 \<Longrightarrow> set_styles el kvs d1 = Inr d2 \<Longrightarrow> next_ref d2 = next_ref d"
  by (simp add: next_ref_clear_styles next_ref_set_styles)

lemma next_ref_update_new_props:
  "update_new_props builtin element old_props new_props d = Inr d' \<Longrightarrow> next_ref d' = next_ref d"
proof (induction new_props arbitrary: d)
  case Nil
  then show ?case by simp
next
  case (Cons kv new_props)
  obtain k v where kv: "kv = (k, v)" by (cases kv)
  from Cons.prems kv have "\<exists>d1. next_ref d1 = next_ref d \<and>
      update_new_props builtin element old_props new_props d1 = Inr d'"
    by (auto simp: Let_def split: sum.splits if_splits
        dest: next_ref_set_className next_ref_setAttribute next_ref_addEventListener
              next_ref_clear_set_styles)
  then obtain d1 where a: "next_ref d1 = next_ref d"
    and b: "update_new_props builtin element old_props new_props d1 = Inr d'"
    by blast
  from a Cons.IH[OF b] show ?case by simp
qed

lemma next_ref_patch_props:
  "patch_props builtin element old_props new_props d = Inr d' \<Longrightarrow> next_ref d' = next_ref d"
  unfolding patch_props_def
  by (auto split: sum.splits
      dest!: next_ref_remove_old_props next_ref_update_new_props)

lemma next_ref_remove_node: "remove_node parent v index d = Inr d' \<Longrightarrow> next_ref d' = next_ref d"
  by (cases v)
     (auto simp: removeChild_def next_ref_update_node next_ref_detach
           split: option.splits if_splits)

lemma next_ref_remove_extra:
  "remove_extra parent olds new_len d = Inr d' \<Longrightarrow> next_ref d' = next_ref d"
  by (induction olds arbitrary: d) (auto split: sum.splits dest!: next_ref_remove_node)

lemma has_keys_first:
  "has_keys new_children \<longleftrightarrow>
     (\<exists>tag props children key el rest. new_children = VNode tag props children (Some key) el # rest)"
proof (cases new_children)
  case Nil
  then show ?thesis by simp
next
  case (Cons c rest)
  then show ?thesis by (cases c) auto
qed

text \<open>
  C4. Patching a mounted node with a new node of the same tag returns: the call patches
  the props on the old host node, which allocates nothing, reconciles the children under
  that host node, and leaves the new node with the host reference of the old node. The
  children are reconciled by key exactly when the first new child is a node whose key is
  not None, positionally otherwise; no later child is consulted. The old host node stays
  in the child list that held it, and with no new children the call allocates no host
  node at all.
\<close>

theorem patch_same_tag_reuse:
  assumes "mounted (VNode tag old_props old_children old_key old_el)"
  shows "\<exists>d1 children' d'.
     patch_props builtin old_el old_props new_props d = Inr d1 \<and> next_ref d1 = next_ref d \<and>
     (if has_keys new_children
      then patch_keyed_children builtin old_el old_children new_children d1
      else patch_children builtin old_el old_children new_children d1) = Inr (children', d') \<and>
     patch builtin parent (Some (VNode tag old_props old_children old_key old_el))
        (Some (VNode tag new_props new_children new_key new_el)) index d =
       Inr (Some (VNode tag new_props children' new_key old_el), d') \<and>
     (has_keys new_children \<longleftrightarrow>
        (\<exists>t p c k e rest. new_children = VNode t p c (Some k) e # rest)) \<and>
     (\<forall>e q. old_el = Some e \<and> e < next_ref d \<and> q < next_ref d \<and> q \<noteq> e \<and>
            e \<notin> els_list old_children \<and> q \<notin> els_list old_children \<and>
            e \<in> set (childNodes (nodes d q)) \<longrightarrow> e \<in> set (childNodes (nodes d' q))) \<and>
     (new_children = [] \<longrightarrow> next_ref d' = next_ref d)"
proof -
  from assms obtain oe where oe: "old_el = Some oe" and mc: "list_all mounted old_children"
    by auto
  have ne: "old_el \<noteq> None" using oe by simp
  from patch_props_total[of builtin oe old_props new_props d] oe obtain d1 where
    pp: "patch_props builtin old_el old_props new_props d = Inr d1" by auto
  note n1 = next_ref_patch_props[OF pp]
  note s1 = step_patch_props[OF pp]
  let ?kids = "if has_keys new_children
      then patch_keyed_children builtin old_el old_children new_children d1
      else patch_children builtin old_el old_children new_children d1"
  have "\<exists>children' d'. ?kids = Inr (children', d')"
    using patch_total(2)[OF ne mc, of builtin new_children d1]
          patch_total(4)[OF ne mc, of builtin new_children d1] by auto
  then obtain children' d' where c: "?kids = Inr (children', d')" by blast
  have s2: "step (els_list old_children) (set_option old_el \<union> els_list old_children) d1 d'"
    using c patch_step(2)[of builtin old_el old_children new_children d1 children' d']
          patch_step(4)[of builtin old_el old_children new_children d1 children' d']
    by (auto split: if_splits)
  have p: "patch builtin parent (Some (VNode tag old_props old_children old_key old_el))
        (Some (VNode tag new_props new_children new_key new_el)) index d =
       Inr (Some (VNode tag new_props children' new_key old_el), d')"
    using pp c
    by (cases "has_keys new_children")
       (simp_all del: patch_children.simps patch_keyed_children.simps)
  have frame: "e \<in> set (childNodes (nodes d' q))"
    if "old_el = Some e" "e < next_ref d" "q < next_ref d" "q \<noteq> e"
       "e \<notin> els_list old_children" "q \<notin> els_list old_children"
       "e \<in> set (childNodes (nodes d q))" for e q
  proof -
    from s1 that have "e \<in> set (childNodes (nodes d1 q))" by (auto simp: step_def)
    with s2 that n1 show ?thesis unfolding step_def by auto
  qed
  have alloc: "next_ref d' = next_ref d" if "new_children = []"
  proof -
    from that c have "patch_children builtin old_el old_children [] d1 = Inr (children', d')"
      by simp
    then obtain d2 where "remove_extra old_el old_children 0 d1 = Inr d2" "d' = d2"
      by (cases old_children) (auto split: sum.splits)
    with n1 show ?thesis by (auto dest: next_ref_remove_extra)
  qed
  from pp n1 c p frame alloc has_keys_first[of new_children] show ?thesis
    by (intro exI[of _ d1] exI[of _ children'] exI[of _ d']) blast
qed

theorem patch_same_tag_reuse_witness:
  "mounted (VNode ''ul'' [] [] None (Some 1)) \<and>
   has_keys [li ''a'' ''a''] \<and>
   (\<exists>children' d'.
      patch_keyed_children (\<lambda>v. []) (Some 1) [] [li ''a'' ''a''] ul_document = Inr (children', d') \<and>
      patch (\<lambda>v. []) (Some 0) (Some (VNode ''ul'' [] [] None (Some 1)))
        (Some (VNode ''ul'' [] [li ''a'' ''a''] None None)) 0 ul_document =
        Inr (Some (VNode ''ul'' [] children' None (Some 1)), d') \<and>
      1 \<in> set (childNodes (nodes d' 0)))"
proof -
  have m: "mounted (VNode ''ul'' [] [] None (Some 1))" by simp
  have k: "has_keys [li ''a'' ''a'']" by (simp add: li_def)
  have pp: "patch_props (\<lambda>v. []) (Some 1) [] [] ul_document = Inr ul_document"
    by (simp add: patch_props_def)
  have c: "(1::nat) \<in> set (childNodes (nodes ul_document 0))" "next_ref ul_document = 2"
    by (simp_all add: ul_document_def)
  from patch_same_tag_reuse[OF m, of "\<lambda>v. []" "[]" ul_document "[li ''a'' ''a'']" "Some 0" None None 0]
  obtain d1 children' d' where
    r: "patch_props (\<lambda>v. []) (Some 1) [] [] ul_document = Inr d1"
       "(if has_keys [li ''a'' ''a'']
         then patch_keyed_children (\<lambda>v. []) (Some 1) [] [li ''a'' ''a''] d1
         else patch_children (\<lambda>v. []) (Some 1) [] [li ''a'' ''a''] d1) = Inr (children', d')"
       "patch (\<lambda>v. []) (Some 0) (Some (VNode ''ul'' [] [] None (Some 1)))
          (Some (VNode ''ul'' [] [li ''a'' ''a''] None None)) 0 ul_document =
        Inr (Some (VNode ''ul'' [] children' None (Some 1)), d')"
       "\<forall>e q. Some (1::nat) = Some e \<and> e < next_ref ul_document \<and> q < next_ref ul_document \<and> q \<noteq> e \<and>
            e \<notin> els_list [] \<and> q \<notin> els_list [] \<and>
            e \<in> set (childNodes (nodes ul_document q)) \<longrightarrow> e \<in> set (childNodes (nodes d' q))"
    by blast
  from r(1) pp have d1: "d1 = ul_document" by simp
  from r(4) c have "1 \<in> set (childNodes (nodes d' 0))" by (simp add: els_list_def)
  with m k r(2,3) d1 show ?thesis by (simp del: patch.simps patch_keyed_children.simps)
qed












lemma remove_node_shrinks:
  "remove_node parent v i d = Inr d' \<Longrightarrow>
     set (childNodes (nodes d' q)) \<subseteq> set (childNodes (nodes d q)) \<and>
     (\<forall>e. el_of v = Some e \<longrightarrow> e \<notin> set (childNodes (nodes d' q)))"
  by (cases v)
     (auto simp: removeChild_def update_node_def detach_def split: option.splits if_splits)





lemma nodes_detach:
  "childNodes (nodes (detach x d) q) = removeAll x (childNodes (nodes d q))"
  by (simp add: detach_def)



lemma step_keeps:
  "step R Q d d' \<Longrightarrow> e < next_ref d \<Longrightarrow> e \<notin> R \<Longrightarrow> q < next_ref d \<Longrightarrow> q \<notin> Q \<Longrightarrow>
   e \<in> set (childNodes (nodes d q)) \<Longrightarrow> e \<in> set (childNodes (nodes d' q))"
  unfolding step_def by blast

lemma step_absent:
  "step R Q d d' \<Longrightarrow> e < next_ref d \<Longrightarrow> e \<notin> R \<Longrightarrow>
   e \<notin> set (childNodes (nodes d q)) \<Longrightarrow> e \<notin> set (childNodes (nodes d' q))"
  unfolding step_def by blast

text \<open>Two element nodes: the patch touches the old node's own subtree only.\<close>

lemma patch_same_tag_step:
  assumes "patch builtin parent (Some (VNode tag op oc ok oe)) (Some (VNode tag np nc nk ne)) i d = Inr (r, d')"
  shows "step (els_list oc) (set_option oe \<union> els_list oc) d d' \<and>
         (\<exists>cs'. r = Some (VNode tag np cs' nk oe))"
proof -
  from assms obtain d1 cs' where
    pp: "patch_props builtin oe op np d = Inr d1" and
    c: "(if has_keys nc then patch_keyed_children builtin oe oc nc d1
         else patch_children builtin oe oc nc d1) = Inr (cs', d')" and
    r: "r = Some (VNode tag np cs' nk oe)"
    by (auto split: sum.splits if_splits simp del: patch_children.simps patch_keyed_children.simps)
  have s2: "step (els_list oc) (set_option oe \<union> els_list oc) d1 d'"
    using c patch_step(2)[of builtin oe oc nc d1 cs' d'] patch_step(4)[of builtin oe oc nc d1 cs' d']
    by (auto split: if_splits)
  from step_patch_props[OF pp] have s1: "step {} {} d d1" .
  have "step (els_list oc) (set_option oe \<union> els_list oc) d d'"
    by (rule step_trans[OF step_mono[OF s1] s2]) auto
  with r show ?thesis by blast
qed

lemma patch_nodes_step:
  assumes "patch builtin parent (Some (VNode ot op oc ok oe)) (Some (VNode nt np nc nk ne)) i d = Inr (r, d')"
  shows "step (els (VNode ot op oc ok oe)) (els (VNode ot op oc ok oe)) d d'"
proof (cases "ot = nt")
  case True
  from patch_same_tag_step[OF assms[unfolded True]] have
    "step (els_list oc) (set_option oe \<union> els_list oc) d d'" by blast
  then show ?thesis by (rule step_mono) (auto simp: els_list_def)
next
  case False
  let ?o = "VNode ot op oc ok oe"
  from assms False obtain d1 n where
    a: "remove_node parent ?o i d = Inr d1" and
    m: "mount builtin parent (VNode nt np nc nk ne) d1 = Inr (n, d')"
    by (auto split: sum.splits simp del: remove_node.simps mount.simps)
  have s1: "step (set_option oe) {} d d1"
    using a by (auto simp: step_refl step_detach split: option.splits)
  from mount_step(1)[OF m] have s2: "step {} {} d1 d'" by blast
  have "step (set_option oe) {} d d'"
    by (rule step_trans[OF s1 s2]) auto
  then show ?thesis by (rule step_mono) auto
qed

lemma els_keyed_entry: "(k, i, c) \<in> set keyed \<Longrightarrow> els c \<subseteq> els_keyed keyed"
  by (auto simp: els_keyed_def)

lemma truthy_key_VNode:
  "truthy_key n = Some key \<Longrightarrow> \<exists>tag props children k el. n = VNode tag props children k el"
  by (cases n) auto

text \<open>
  One keyed new child: a host node \<open>e\<close> among the children of the parent stays there,
  when the old child found under the key either does not hold \<open>e\<close> or is the element of
  \<open>e\<close> and has the tag of the new child.
\<close>

lemma keyed_child_keeps:
  assumes kc: "patch_keyed_child builtin (Some p) keyed key n idx d = Inr (n', d')"
    and tk: "truthy_key n = Some key"
    and ok: "\<forall>(k, i, c)\<in>set keyed. truthy_key c = Some k"
    and e: "e < next_ref d" "p < next_ref d" "e \<in> set (childNodes (nodes d p))"
    and sep: "p \<notin> els_keyed keyed"
    and target: "\<forall>i ov. map_of keyed key = Some (i, ov) \<longrightarrow>
        e \<notin> els ov \<or> (el_of ov = Some e \<and> tag_of ov = tag_of n \<and> e \<notin> els_list (children_of ov))"
  shows "e \<in> set (childNodes (nodes d' p))"
proof -
  from truthy_key_VNode[OF tk] obtain nt np nc nk ne where n: "n = VNode nt np nc nk ne" by blast
  show ?thesis
  proof (cases "map_of keyed key")
    case None
    from kc None obtain m d1 where
      m: "mount builtin (Some p) n d = Inr (m, d1)" and
      rest: "(if idx < length (childNodes (nodes d1 p))
              then (case move_node (Some p) (el_of m) idx d1 of Inl x \<Rightarrow> Inl x | Inr d2 \<Rightarrow> Inr (m, d2))
              else Inr (m, d1)) = Inr (n', d')"
      by (auto split: sum.splits simp del: mount.simps)
    from mount_step(1)[OF m] have s1: "step {} {} d d1" by blast
    from mount_el[OF m[unfolded n]] have el: "el_of m = Some (next_ref d)" .
    from step_keeps[OF s1 e(1) _ e(2) _ e(3)] have e1: "e \<in> set (childNodes (nodes d1 p))" by simp
    from step_next[OF s1] e have b1: "e < next_ref d1" "p < next_ref d1" by simp_all
    show ?thesis
    proof (cases "idx < length (childNodes (nodes d1 p))")
      case True
      with rest obtain d2 where mv: "move_node (Some p) (el_of m) idx d1 = Inr d2" and d': "d' = d2"
        by (auto split: sum.splits)
      from step_move_node[OF mv] el have "step {next_ref d} {} d1 d2" by simp
      from step_keeps[OF this b1(1) _ b1(2) _ e1] e(1) d' show ?thesis by simp
    next
      case False
      with rest e1 show ?thesis by simp
    qed
  next
    case (Some a)
    obtain i ov where a: "a = (i, ov)" by (cases a)
    from Some a have mem: "(key, i, ov) \<in> set keyed" by (auto dest: map_of_SomeD)
    with ok have "truthy_key ov = Some key" by auto
    from truthy_key_VNode[OF this] obtain ot op oc ok' oe where ov: "ov = VNode ot op oc ok' oe" by blast
    from els_keyed_entry[OF mem] sep have pn: "p \<notin> els ov" by auto
    from kc Some a obtain r d1 where
      pt: "patch builtin (Some p) (Some ov) (Some n) idx d = Inr (r, d1)" and
      rest: "(if i \<noteq> idx
              then (case move_node (Some p) (el_of (after_call n r)) idx d1 of
                      Inl x \<Rightarrow> Inl x | Inr d2 \<Rightarrow> Inr (after_call n r, d2))
              else Inr (after_call n r, d1)) = Inr (n', d')"
      by (auto split: sum.splits)
    from patch_step(1)[OF pt] obtain m where
      r: "r = Some m" and fresh: "\<And>x. el_of m = Some x \<Longrightarrow> x \<in> els ov \<or> next_ref d \<le> x"
      and nx: "next_ref d \<le> next_ref d1"
      by (auto simp: els_opt_def step_def)
    from r have ac: "after_call n r = m" by (simp add: after_call_def)
    from nx e have b1: "e < next_ref d1" "p < next_ref d1" by simp_all
    from target Some a consider "e \<notin> els ov"
      | "el_of ov = Some e" "tag_of ov = tag_of n" "e \<notin> els_list (children_of ov)" by blast
    then show ?thesis
    proof cases
      case 1
      from patch_nodes_step[OF pt[unfolded ov n]] have "step (els ov) (els ov) d d1" by (simp add: ov)
      from step_keeps[OF this e(1) 1 e(2) pn e(3)] have e1: "e \<in> set (childNodes (nodes d1 p))" .
      show ?thesis
      proof (cases "i \<noteq> idx")
        case True
        with rest ac obtain d2 where mv: "move_node (Some p) (el_of m) idx d1 = Inr d2" and d': "d' = d2"
          by (auto split: sum.splits)
        have ne: "e \<notin> set_option (el_of m)"
        proof (cases "el_of m")
          case None
          then show ?thesis by simp
        next
          case (Some x)
          from fresh[OF Some] 1 e(1) have "x \<noteq> e" by auto
          with Some show ?thesis by simp
        qed
        from step_keeps[OF step_move_node[OF mv] b1(1) ne b1(2) _ e1] d' show ?thesis by simp
      next
        case False
        with rest e1 show ?thesis by simp
      qed
    next
      case 2
      from 2(2) have t: "ot = nt" by (simp add: ov n)
      from 2(1) have oe: "oe = Some e" by (simp add: ov)
      from 2(3) have ec: "e \<notin> els_list oc" by (simp add: ov)
      from patch_same_tag_step[OF pt[unfolded ov n t]] r obtain cs' where
        s: "step (els_list oc) (set_option oe \<union> els_list oc) d d1" and
        m: "m = VNode nt np cs' nk oe" by auto
      have pq: "p \<notin> set_option oe \<union> els_list oc" using pn by (auto simp: ov els_list_def)
      from step_keeps[OF s e(1) ec e(2) pq e(3)] have e1: "e \<in> set (childNodes (nodes d1 p))" .
      show ?thesis
      proof (cases "i \<noteq> idx")
        case True
        with rest ac obtain d2 where mv: "move_node (Some p) (el_of m) idx d1 = Inr d2" and d': "d' = d2"
          by (auto split: sum.splits)
        from mv m oe have "move_node (Some p) (Some e) idx d1 = Inr d2" by simp
        from move_node_member[OF this] d' show ?thesis by simp
      next
        case False
        with rest e1 show ?thesis by simp
      qed
    qed
  qed
qed

lemma keyed_child_next:
  "patch_keyed_child builtin parent keyed key n idx d = Inr (n', d') \<Longrightarrow> next_ref d \<le> next_ref d'"
  by (drule patch_step(5)) (rule step_next)

lemma keyed_loop_keeps:
  assumes ok: "\<forall>(k, i, c)\<in>set keyed. truthy_key c = Some k"
    and sep: "p \<notin> els_keyed keyed"
  shows "patch_keyed_loop builtin (Some p) keyed ns idx used d = Inr (ns', used', d') \<Longrightarrow>
     e < next_ref d \<Longrightarrow> p < next_ref d \<Longrightarrow> e \<in> set (childNodes (nodes d p)) \<Longrightarrow>
     (\<forall>n\<in>set ns. \<forall>key i ov. truthy_key n = Some key \<and> map_of keyed key = Some (i, ov) \<longrightarrow>
        e \<notin> els ov \<or> (el_of ov = Some e \<and> tag_of ov = tag_of n \<and> e \<notin> els_list (children_of ov))) \<Longrightarrow>
     e \<in> set (childNodes (nodes d' p))"
proof (induction ns arbitrary: idx used d ns' used' d')
  case Nil
  then show ?case by simp
next
  case (Cons n ns)
  show ?case
  proof (cases "truthy_key n")
    case None
    with Cons.prems(1) obtain rest' where
      l: "patch_keyed_loop builtin (Some p) keyed ns (Suc idx) used d = Inr (rest', used', d')"
      by (auto split: sum.splits)
    from Cons.prems(5) have t5: "\<forall>n\<in>set ns. \<forall>key i ov. truthy_key n = Some key \<and> map_of keyed key = Some (i, ov) \<longrightarrow>
        e \<notin> els ov \<or> (el_of ov = Some e \<and> tag_of ov = tag_of n \<and> e \<notin> els_list (children_of ov))"
      by auto
    show ?thesis by (rule Cons.IH[OF l Cons.prems(2,3,4) t5])
  next
    case (Some key)
    with Cons.prems(1) obtain m d2 rest' where
      kc: "patch_keyed_child builtin (Some p) keyed key n idx d = Inr (m, d2)" and
      l: "patch_keyed_loop builtin (Some p) keyed ns (Suc idx) (insert key used) d2 = Inr (rest', used', d')"
      by (auto split: sum.splits simp del: patch_keyed_child.simps)
    have t: "\<forall>i ov. map_of keyed key = Some (i, ov) \<longrightarrow>
        e \<notin> els ov \<or> (el_of ov = Some e \<and> tag_of ov = tag_of n \<and> e \<notin> els_list (children_of ov))"
      using Cons.prems(5) Some by simp
    from keyed_child_keeps[OF kc Some ok Cons.prems(2,3,4) sep t]
    have e2: "e \<in> set (childNodes (nodes d2 p))" .
    from keyed_child_next[OF kc] Cons.prems(2,3) have b: "e < next_ref d2" "p < next_ref d2" by simp_all
    from Cons.prems(5) have t5: "\<forall>n\<in>set ns. \<forall>key i ov. truthy_key n = Some key \<and> map_of keyed key = Some (i, ov) \<longrightarrow>
        e \<notin> els ov \<or> (el_of ov = Some e \<and> tag_of ov = tag_of n \<and> e \<notin> els_list (children_of ov))"
      by auto
    show ?thesis by (rule Cons.IH[OF l b e2 t5])
  qed
qed

lemma keyed_loop_used:
  "patch_keyed_loop builtin parent keyed ns idx used d = Inr (ns', used', d') \<Longrightarrow>
     used' = used \<union> {k. \<exists>n\<in>set ns. truthy_key n = Some k} \<and> length ns' = length ns \<and>
     next_ref d \<le> next_ref d'"
proof (induction ns arbitrary: idx used d ns' used' d')
  case Nil
  then show ?case by simp
next
  case (Cons n ns)
  show ?case
  proof (cases "truthy_key n")
    case None
    with Cons.prems(1) obtain rest' where
      l: "patch_keyed_loop builtin parent keyed ns (Suc idx) used d = Inr (rest', used', d')"
      and r: "ns' = n # rest'"
      by (auto split: sum.splits)
    from Cons.IH[OF l] None r show ?thesis by auto
  next
    case (Some key)
    with Cons.prems(1) obtain m d2 rest' where
      kc: "patch_keyed_child builtin parent keyed key n idx d = Inr (m, d2)" and
      l: "patch_keyed_loop builtin parent keyed ns (Suc idx) (insert key used) d2 = Inr (rest', used', d')"
      and r: "ns' = m # rest'"
      by (auto split: sum.splits simp del: patch_keyed_child.simps)
    from Cons.IH[OF l] keyed_child_next[OF kc] Some r show ?thesis by auto
  qed
qed

text \<open>
  The host node of a keyed new child whose key an old child has: that of the old child
  when the tags agree, a new one when they differ.
\<close>

lemma keyed_child_result:
  assumes kc: "patch_keyed_child builtin parent keyed key n idx d = Inr (n', d')"
    and tk: "truthy_key n = Some key"
    and lk: "map_of keyed key = Some (i, ov)"
    and ok: "truthy_key ov = Some key"
  shows "(tag_of ov = tag_of n \<longrightarrow> el_of n' = el_of ov) \<and>
         (tag_of ov \<noteq> tag_of n \<longrightarrow> (\<exists>x. el_of n' = Some x \<and> next_ref d \<le> x))"
proof -
  from truthy_key_VNode[OF tk] obtain nt np nc nk ne where n: "n = VNode nt np nc nk ne" by blast
  from truthy_key_VNode[OF ok] obtain ot op oc ok' oe where ov: "ov = VNode ot op oc ok' oe" by blast
  from kc lk obtain r d1 where
    pt: "patch builtin parent (Some ov) (Some n) idx d = Inr (r, d1)" and
    n': "n' = after_call n r"
    by (auto split: sum.splits if_splits)
  show ?thesis
  proof (cases "ot = nt")
    case True
    from patch_same_tag_step[OF pt[unfolded ov n True]] obtain cs' where
      "r = Some (VNode nt np cs' nk oe)" by blast
    with n' True show ?thesis by (simp add: after_call_def ov n)
  next
    case False
    from pt False obtain d2 m where
      a: "remove_node parent ov idx d = Inr d2" and
      m: "mount builtin parent n d2 = Inr (m, d1)" and r: "r = Some m"
      unfolding ov n by (auto split: sum.splits simp del: remove_node.simps mount.simps)
    from mount_el[OF m[unfolded n]] next_ref_remove_node[OF a] r n' False
    show ?thesis by (simp add: after_call_def ov n)
  qed
qed

lemma keyed_loop_result:
  assumes ok: "\<forall>(k, i, c)\<in>set keyed. truthy_key c = Some k"
  shows "patch_keyed_loop builtin parent keyed ns idx used d = Inr (ns', used', d') \<Longrightarrow>
     j < length ns \<Longrightarrow> truthy_key (ns ! j) = Some key \<Longrightarrow> map_of keyed key = Some (i, ov) \<Longrightarrow>
     (tag_of ov = tag_of (ns ! j) \<longrightarrow> el_of (ns' ! j) = el_of ov) \<and>
     (tag_of ov \<noteq> tag_of (ns ! j) \<longrightarrow> (\<exists>x. el_of (ns' ! j) = Some x \<and> next_ref d \<le> x))"
proof (induction ns arbitrary: idx used d ns' used' d' j)
  case Nil
  then show ?case by simp
next
  case (Cons n ns)
  from Cons.prems(4) have mem: "(key, i, ov) \<in> set keyed" by (auto dest: map_of_SomeD)
  with ok have tov: "truthy_key ov = Some key" by auto
  show ?case
  proof (cases "truthy_key n")
    case None
    with Cons.prems(1) obtain rest' where
      l: "patch_keyed_loop builtin parent keyed ns (Suc idx) used d = Inr (rest', used', d')"
      and r: "ns' = n # rest'"
      by (auto split: sum.splits)
    from Cons.prems(2,3) None obtain j' where j: "j = Suc j'" by (cases j) auto
    from Cons.IH[OF l _ _ Cons.prems(4), of j'] Cons.prems(2,3) j r show ?thesis by simp
  next
    case (Some k)
    with Cons.prems(1) obtain m d2 rest' where
      kc: "patch_keyed_child builtin parent keyed k n idx d = Inr (m, d2)" and
      l: "patch_keyed_loop builtin parent keyed ns (Suc idx) (insert k used) d2 = Inr (rest', used', d')"
      and r: "ns' = m # rest'"
      by (auto split: sum.splits simp del: patch_keyed_child.simps)
    show ?thesis
    proof (cases j)
      case 0
      with Cons.prems(3) Some have k: "k = key" by simp
      from keyed_child_result[OF kc[unfolded k] Some[unfolded k] Cons.prems(4) tov] 0 r
      show ?thesis by simp
    next
      case (Suc j')
      from Cons.IH[OF l _ _ Cons.prems(4), of j'] Cons.prems(2,3) Suc r keyed_child_next[OF kc]
      show ?thesis by auto
    qed
  qed
qed

lemma remove_unused_keeps:
  assumes ok: "\<forall>(k, i, c)\<in>set keyed. truthy_key c = Some k"
  shows "remove_unused parent keyed used d = Inr d' \<Longrightarrow> e \<in> set (childNodes (nodes d q)) \<Longrightarrow>
     (\<forall>(k, i, c)\<in>set keyed. k \<notin> used \<longrightarrow> el_of c \<noteq> Some e) \<Longrightarrow>
     e \<in> set (childNodes (nodes d' q))"
  using ok
proof (induction keyed arbitrary: d)
  case Nil
  then show ?case by simp
next
  case (Cons kic keyed)
  obtain k i c where kic: "kic = (k, i, c)" by (cases kic)
  from Cons.prems(4) kic have "truthy_key c = Some k" by simp
  from truthy_key_VNode[OF this] obtain t pr cs ky el where c: "c = VNode t pr cs ky el" by blast
  from Cons.prems(4) have ok': "\<forall>(k, i, c)\<in>set keyed. truthy_key c = Some k" by simp
  show ?case
  proof (cases "k \<in> used")
    case True
    with Cons.prems(1) kic have r: "remove_unused parent keyed used d = Inr d'" by simp
    from Cons.IH[OF r Cons.prems(2) _ ok'] Cons.prems(3) show ?thesis by simp
  next
    case False
    with Cons.prems(1) kic obtain d1 where
      a: "remove_node parent c 0 d = Inr d1" and r: "remove_unused parent keyed used d1 = Inr d'"
      by (auto split: sum.splits simp del: remove_node.simps)
    from Cons.prems(3) kic False have "el \<noteq> Some e" by (simp add: c)
    with a Cons.prems(2) have "e \<in> set (childNodes (nodes d1 q))"
      by (auto simp: c nodes_detach split: option.splits)
    from Cons.IH[OF r this _ ok'] Cons.prems(3) show ?thesis by simp
  qed
qed

lemma remove_unused_shrinks:
  "remove_unused parent keyed used d = Inr d' \<Longrightarrow>
     set (childNodes (nodes d' q)) \<subseteq> set (childNodes (nodes d q)) \<and>
     (\<forall>(k, i, c)\<in>set keyed. k \<notin> used \<longrightarrow>
        (\<forall>e. el_of c = Some e \<longrightarrow> e \<notin> set (childNodes (nodes d' q))))"
proof (induction keyed arbitrary: d)
  case Nil
  then show ?case by simp
next
  case (Cons kic keyed)
  obtain k i c where kic: "kic = (k, i, c)" by (cases kic)
  show ?case
  proof (cases "k \<in> used")
    case True
    with Cons.prems kic have r: "remove_unused parent keyed used d = Inr d'" by simp
    from Cons.IH[OF r] kic True show ?thesis by auto
  next
    case False
    with Cons.prems kic obtain d1 where
      a: "remove_node parent c 0 d = Inr d1" and r: "remove_unused parent keyed used d1 = Inr d'"
      by (auto split: sum.splits simp del: remove_node.simps)
    from remove_node_shrinks[OF a, of q] Cons.IH[OF r] kic show ?thesis by auto
  qed
qed

text \<open>The entries of the key map of the old children.\<close>

lemma dict_set_mem: "(k, v) \<in> set (dict_set keyed k v)"
  by (induction keyed) auto

lemma dict_set_other: "(k, v) \<in> set keyed \<Longrightarrow> k \<noteq> k' \<Longrightarrow> (k, v) \<in> set (dict_set keyed k' v')"
  by (induction keyed) auto

lemma build_keyed_entries:
  "(k, i, c) \<in> set (build_keyed os j acc) \<Longrightarrow>
     (k, i, c) \<in> set acc \<or> (c \<in> set os \<and> truthy_key c = Some k)"
proof (induction os arbitrary: j acc)
  case Nil
  then show ?case by simp
next
  case (Cons c0 os)
  show ?case
  proof (cases "truthy_key c0")
    case None
    with Cons.prems Cons.IH[of "Suc j" acc] show ?thesis by auto
  next
    case (Some k0)
    with Cons.prems Cons.IH[of "Suc j" "dict_set acc k0 (j, c0)"]
      set_dict_set[of acc k0 "(j, c0)"]
    show ?thesis by auto
  qed
qed

lemma build_keyed_survives:
  "(k, v) \<in> set acc \<Longrightarrow> \<forall>c\<in>set os. truthy_key c \<noteq> Some k \<Longrightarrow>
     (k, v) \<in> set (build_keyed os j acc)"
proof (induction os arbitrary: j acc)
  case Nil
  then show ?case by simp
next
  case (Cons c0 os)
  show ?case
  proof (cases "truthy_key c0")
    case None
    with Cons.prems Cons.IH[of acc "Suc j"] show ?thesis by simp
  next
    case (Some k0)
    with Cons.prems have "k \<noteq> k0" by auto
    from dict_set_other[OF Cons.prems(1) this] Cons.prems(2) Some
      Cons.IH[of "dict_set acc k0 (j, c0)" "Suc j"]
    show ?thesis by simp
  qed
qed

lemma build_keyed_has:
  "distinct (map truthy_key os) \<Longrightarrow> c \<in> set os \<Longrightarrow> truthy_key c = Some k \<Longrightarrow>
     \<exists>i. (k, i, c) \<in> set (build_keyed os j acc)"
proof (induction os arbitrary: j acc)
  case Nil
  then show ?case by simp
next
  case (Cons c0 os)
  show ?case
  proof (cases "c = c0")
    case True
    from Cons.prems(1) True Cons.prems(3) have "\<forall>c'\<in>set os. truthy_key c' \<noteq> Some k"
      by (auto simp: image_iff)
    from build_keyed_survives[OF dict_set_mem[of k "(j, c0)" acc] this, of "Suc j"] True Cons.prems(3)
    show ?thesis by auto
  next
    case False
    with Cons.prems have d: "distinct (map truthy_key os)" and m: "c \<in> set os" by simp_all
    from Cons.IH[OF d m Cons.prems(3)] show ?thesis
      by (cases "truthy_key c0") auto
  qed
qed

text \<open>
  One keyed new child: a host node \<open>e\<close> that is in no child list stays out of them, and
  the host node of the old child found under the key is taken out of them when the tags
  differ.
\<close>

lemma keyed_child_absent:
  assumes kc: "patch_keyed_child builtin (Some p) keyed key n idx d = Inr (n', d')"
    and tk: "truthy_key n = Some key"
    and ok: "\<forall>(k, i, c)\<in>set keyed. truthy_key c = Some k"
    and e: "e < next_ref d"
    and target: "\<forall>i ov. map_of keyed key = Some (i, ov) \<longrightarrow>
        e \<notin> els ov \<or> (el_of ov = Some e \<and> tag_of ov \<noteq> tag_of n)"
    and start: "(\<forall>q. e \<notin> set (childNodes (nodes d q))) \<or>
        (\<exists>i ov. map_of keyed key = Some (i, ov) \<and> el_of ov = Some e \<and> tag_of ov \<noteq> tag_of n)"
  shows "\<forall>q. e \<notin> set (childNodes (nodes d' q))"
proof -
  from truthy_key_VNode[OF tk] obtain nt np nc nk ne where n: "n = VNode nt np nc nk ne" by blast
  show ?thesis
  proof (cases "map_of keyed key")
    case None
    with start have a0: "\<And>q. e \<notin> set (childNodes (nodes d q))" by simp
    from kc None obtain m d1 where
      m: "mount builtin (Some p) n d = Inr (m, d1)" and
      rest: "(if idx < length (childNodes (nodes d1 p))
              then (case move_node (Some p) (el_of m) idx d1 of Inl x \<Rightarrow> Inl x | Inr d2 \<Rightarrow> Inr (m, d2))
              else Inr (m, d1)) = Inr (n', d')"
      by (auto split: sum.splits simp del: mount.simps)
    from mount_step(1)[OF m] have s1: "step {} {} d d1" by blast
    from mount_el[OF m[unfolded n]] have el: "el_of m = Some (next_ref d)" .
    have a1: "e \<notin> set (childNodes (nodes d1 q))" for q
      by (rule step_absent[OF s1 e _ a0]) simp
    from step_next[OF s1] e have b1: "e < next_ref d1" by simp
    show ?thesis
    proof (cases "idx < length (childNodes (nodes d1 p))")
      case True
      with rest obtain d2 where mv: "move_node (Some p) (el_of m) idx d1 = Inr d2" and d': "d' = d2"
        by (auto split: sum.splits)
      from step_move_node[OF mv] el have s2: "step {next_ref d} {} d1 d2" by simp
      have "e \<notin> set (childNodes (nodes d2 q))" for q
        by (rule step_absent[OF s2 b1 _ a1]) (use e in simp)
      with d' show ?thesis by simp
    next
      case False
      with rest a1 show ?thesis by simp
    qed
  next
    case (Some a)
    obtain i ov where a: "a = (i, ov)" by (cases a)
    from Some a have mem: "(key, i, ov) \<in> set keyed" by (auto dest: map_of_SomeD)
    with ok have "truthy_key ov = Some key" by auto
    from truthy_key_VNode[OF this] obtain ot op oc ok' oe where ov: "ov = VNode ot op oc ok' oe" by blast
    from kc Some a obtain r d1 where
      pt: "patch builtin (Some p) (Some ov) (Some n) idx d = Inr (r, d1)" and
      rest: "(if i \<noteq> idx
              then (case move_node (Some p) (el_of (after_call n r)) idx d1 of
                      Inl x \<Rightarrow> Inl x | Inr d2 \<Rightarrow> Inr (after_call n r, d2))
              else Inr (after_call n r, d1)) = Inr (n', d')"
      by (auto split: sum.splits)
    from patch_step(1)[OF pt] obtain m where
      r: "r = Some m" and nx: "next_ref d \<le> next_ref d1"
      by (auto simp: els_opt_def step_def)
    from r have ac: "after_call n r = m" by (simp add: after_call_def)
    from nx e have b1: "e < next_ref d1" by simp
    have "(\<forall>q. e \<notin> set (childNodes (nodes d1 q))) \<and> e \<notin> set_option (el_of m)"
    proof (cases "e \<in> els ov")
      case False
      with start Some a have a0: "\<And>q. e \<notin> set (childNodes (nodes d q))" by (auto simp: ov)
      from patch_nodes_step[OF pt[unfolded ov n]] have s: "step (els ov) (els ov) d d1" by (simp add: ov)
      have a1: "\<forall>q. e \<notin> set (childNodes (nodes d1 q))"
        using step_absent[OF s e False a0] by blast
      from patch_step(1)[OF pt] r have "\<And>x. el_of m = Some x \<Longrightarrow> x \<in> els ov \<or> next_ref d \<le> x"
        by (auto simp: els_opt_def)
      with False e have "e \<notin> set_option (el_of m)" by (cases "el_of m") auto
      with a1 show ?thesis by blast
    next
      case True
      with target Some a have oe: "oe = Some e" and tg: "ot \<noteq> nt" by (auto simp: ov n)
      from pt tg obtain d2 m' where
        rm: "remove_node (Some p) ov idx d = Inr d2" and
        mt: "mount builtin (Some p) n d2 = Inr (m', d1)" and rr: "r = Some m'"
        unfolding ov n by (auto split: sum.splits simp del: remove_node.simps mount.simps)
      from rm oe have d2: "d2 = detach e d" by (simp add: ov)
      have a2: "e \<notin> set (childNodes (nodes d2 q))" for q by (simp add: d2 nodes_detach)
      have e2: "e < next_ref d2" using e by (simp add: d2 next_ref_detach)
      from mount_step(1)[OF mt] have s: "step {} {} d2 d1" by blast
      have a1: "\<forall>q. e \<notin> set (childNodes (nodes d1 q))"
        using step_absent[OF s e2 _ a2] by simp
      from mount_el[OF mt[unfolded n]] rr r have "el_of m = Some (next_ref d2)" by simp
      with e2 have "e \<notin> set_option (el_of m)" by simp
      with a1 show ?thesis by blast
    qed
    then have a1: "\<And>q. e \<notin> set (childNodes (nodes d1 q))" and ne: "e \<notin> set_option (el_of m)"
      by blast+
    show ?thesis
    proof (cases "i \<noteq> idx")
      case True
      with rest ac obtain d2 where mv: "move_node (Some p) (el_of m) idx d1 = Inr d2" and d': "d' = d2"
        by (auto split: sum.splits)
      have "e \<notin> set (childNodes (nodes d2 q))" for q
        by (rule step_absent[OF step_move_node[OF mv] b1 ne a1])
      with d' show ?thesis by simp
    next
      case False
      with rest a1 show ?thesis by simp
    qed
  qed
qed

lemma keyed_loop_removes:
  assumes ok: "\<forall>(k, i, c)\<in>set keyed. truthy_key c = Some k"
  shows "patch_keyed_loop builtin (Some p) keyed ns idx used d = Inr (ns', used', d') \<Longrightarrow>
     e < next_ref d \<Longrightarrow>
     (\<forall>n\<in>set ns. \<forall>key i ov. truthy_key n = Some key \<and> map_of keyed key = Some (i, ov) \<longrightarrow>
        e \<notin> els ov \<or> (el_of ov = Some e \<and> tag_of ov \<noteq> tag_of n)) \<Longrightarrow>
     (\<forall>q. e \<notin> set (childNodes (nodes d q))) \<or>
     (\<exists>n\<in>set ns. \<exists>key i ov. truthy_key n = Some key \<and> map_of keyed key = Some (i, ov) \<and>
        el_of ov = Some e) \<Longrightarrow>
     \<forall>q. e \<notin> set (childNodes (nodes d' q))"
proof (induction ns arbitrary: idx used d ns' used' d')
  case Nil
  then show ?case by simp
next
  case (Cons n ns)
  from Cons.prems(3) have t5: "\<forall>n\<in>set ns. \<forall>key i ov. truthy_key n = Some key \<and> map_of keyed key = Some (i, ov) \<longrightarrow>
        e \<notin> els ov \<or> (el_of ov = Some e \<and> tag_of ov \<noteq> tag_of n)" by auto
  show ?case
  proof (cases "truthy_key n")
    case None
    with Cons.prems(1) obtain rest' where
      l: "patch_keyed_loop builtin (Some p) keyed ns (Suc idx) used d = Inr (rest', used', d')"
      by (auto split: sum.splits)
    from Cons.prems(4) None have s: "(\<forall>q. e \<notin> set (childNodes (nodes d q))) \<or>
     (\<exists>n\<in>set ns. \<exists>key i ov. truthy_key n = Some key \<and> map_of keyed key = Some (i, ov) \<and>
        el_of ov = Some e)" by auto
    show ?thesis by (rule Cons.IH[OF l Cons.prems(2) t5 s])
  next
    case (Some key)
    with Cons.prems(1) obtain m d2 rest' where
      kc: "patch_keyed_child builtin (Some p) keyed key n idx d = Inr (m, d2)" and
      l: "patch_keyed_loop builtin (Some p) keyed ns (Suc idx) (insert key used) d2 = Inr (rest', used', d')"
      by (auto split: sum.splits simp del: patch_keyed_child.simps)
    have t: "\<forall>i ov. map_of keyed key = Some (i, ov) \<longrightarrow>
        e \<notin> els ov \<or> (el_of ov = Some e \<and> tag_of ov \<noteq> tag_of n)"
      using Cons.prems(3) Some by simp
    from keyed_child_next[OF kc] Cons.prems(2) have b: "e < next_ref d2" by simp
    show ?thesis
    proof (cases "(\<forall>q. e \<notin> set (childNodes (nodes d q))) \<or>
        (\<exists>i ov. map_of keyed key = Some (i, ov) \<and> el_of ov = Some e \<and> tag_of ov \<noteq> tag_of n)")
      case True
      from keyed_child_absent[OF kc Some ok Cons.prems(2) t True]
      have "(\<forall>q. e \<notin> set (childNodes (nodes d2 q))) \<or>
         (\<exists>n\<in>set ns. \<exists>key i ov. truthy_key n = Some key \<and> map_of keyed key = Some (i, ov) \<and>
            el_of ov = Some e)" by blast
      then show ?thesis by (rule Cons.IH[OF l b t5])
    next
      case False
      have "\<not> (\<exists>i ov. map_of keyed key = Some (i, ov) \<and> el_of ov = Some e)"
      proof
        assume "\<exists>i ov. map_of keyed key = Some (i, ov) \<and> el_of ov = Some e"
        then obtain i ov where lk: "map_of keyed key = Some (i, ov)" and el: "el_of ov = Some e" by blast
        from el have "e \<in> els ov" by (cases ov) auto
        with t lk el have "tag_of ov \<noteq> tag_of n" by blast
        with lk el False show False by blast
      qed
      with Cons.prems(4) Some False have "(\<forall>q. e \<notin> set (childNodes (nodes d2 q))) \<or>
         (\<exists>n\<in>set ns. \<exists>key i ov. truthy_key n = Some key \<and> map_of keyed key = Some (i, ov) \<and>
            el_of ov = Some e)" by auto
      then show ?thesis by (rule Cons.IH[OF l b t5])
    qed
  qed
qed

end
